theory Spec2Isabelle
  imports Main "HOL-Library.AList"
begin

section \<open>Data model of \<^verbatim>\<open>packages/events/src/event-iterator.ts\<close>\<close>

text \<open>
  A JavaScript value of type \<^verbatim>\<open>T | undefined\<close> is an \<open>'a option\<close>, with
  \<open>None\<close> for \<^verbatim>\<open>undefined\<close>. The same convention is used for the optional
  fields of the options object.
\<close>

record 'a EventEntry =
  name :: string
  data :: "'a option"

record AsyncEventIteratorOptions =
  doneEventName :: "string option"
  errorEventName :: "string option"
  listenNow :: "bool option"

text \<open>The object \<^verbatim>\<open>{value, done}\<close> an iterator promise resolves with.\<close>

datatype 'a IteratorResult =
  IteratorResult (result_value: "'a EventEntry option") (result_done: bool)

text \<open>How a promise was settled: \<^verbatim>\<open>resolve(result)\<close> or \<^verbatim>\<open>reject(err)\<close>.\<close>

datatype 'a settlement = Resolved "'a IteratorResult" | Rejected "'a option"

text \<open>
  A handler registered on the emitter. \<open>Bridge i n\<close> is the closure number \<open>i\<close> made by
  \<^verbatim>\<open>createListener(n)\<close>, which calls \<^verbatim>\<open>pushEvent(event, n)\<close>; \<open>Foreign i\<close> is a handler
  of some other party sharing the emitter, which does not touch the iterator.
\<close>

datatype listener = Bridge nat string | Foreign nat

text \<open>
  The fields of the class, followed by the two pieces of the JavaScript heap the class
  works on: the listener arrays of the emitter it was given (\<open>eventEmitter\<close>, one array
  per event name, in registration order) and the promises it has handed out
  (\<open>promises p = None\<close> while promise \<open>p\<close> is pending). \<open>nextPromise\<close> and
  \<open>nextListener\<close> number the promises and closures created so far, which gives each
  its identity.
\<close>

record 'a AsyncEventIterator =
  eventEmitter :: "string \<Rightarrow> listener list"
  eventNames :: "string list"
  options :: AsyncEventIteratorOptions
  promiseQueue :: "nat list"
  eventQueue :: "'a EventEntry list"
  listening :: bool
  listenersAdded :: bool
  listeners :: "(string \<times> listener) list"
  doneListener :: "listener option"
  errorListener :: "listener option"
  promises :: "nat \<Rightarrow> 'a settlement option"
  nextPromise :: nat
  nextListener :: nat

section \<open>The emitter and the promises\<close>

text \<open>
  Node's \<^verbatim>\<open>EventEmitter\<close>: \<^verbatim>\<open>addListener\<close> appends the handler to the array of
  the event name (without looking for duplicates); \<^verbatim>\<open>removeListener\<close> removes
  at most one instance of the handler, the most recently added one.
\<close>

definition remove_last :: "'b \<Rightarrow> 'b list \<Rightarrow> 'b list" where
  "remove_last x xs = rev (remove1 x (rev xs))"

definition addListener ::
  "string \<Rightarrow> listener \<Rightarrow> 'a AsyncEventIterator \<Rightarrow> 'a AsyncEventIterator" where
  "addListener ch l s = s\<lparr>eventEmitter := (eventEmitter s)(ch := eventEmitter s ch @ [l])\<rparr>"

definition removeListener ::
  "string \<Rightarrow> listener \<Rightarrow> 'a AsyncEventIterator \<Rightarrow> 'a AsyncEventIterator" where
  "removeListener ch l s =
     s\<lparr>eventEmitter := (eventEmitter s)(ch := remove_last l (eventEmitter s ch))\<rparr>"

text \<open>
  \<^verbatim>\<open>new Promise(...)\<close> makes a fresh pending promise. Calling \<^verbatim>\<open>resolve\<close> or
  \<^verbatim>\<open>reject\<close> of a promise that is already settled does nothing.
\<close>

definition newPromise :: "'a AsyncEventIterator \<Rightarrow> nat \<times> 'a AsyncEventIterator" where
  "newPromise s =
     (nextPromise s,
      s\<lparr>promises := (promises s)(nextPromise s := None), nextPromise := Suc (nextPromise s)\<rparr>)"

definition settle ::
  "nat \<Rightarrow> 'a settlement \<Rightarrow> 'a AsyncEventIterator \<Rightarrow> 'a AsyncEventIterator" where
  "settle p v s =
     (if promises s p = None then s\<lparr>promises := (promises s)(p \<mapsto> v)\<rparr> else s)"

text \<open>
  Truthiness of an optional string (defined and not the empty string), and the
  JavaScript expression \<^verbatim>\<open>x || d\<close> on it.
\<close>

definition truthy :: "string option \<Rightarrow> bool" where
  "truthy x = (case x of None \<Rightarrow> False | Some n \<Rightarrow> n \<noteq> [])"

definition or_else :: "string option \<Rightarrow> string \<Rightarrow> string" where
  "or_else x d = (case x of None \<Rightarrow> d | Some n \<Rightarrow> if n \<noteq> [] then n else d)"

section \<open>The methods of \<^verbatim>\<open>AsyncEventIterator\<close>\<close>

definition pushEvent ::
  "'a option \<Rightarrow> string \<Rightarrow> 'a AsyncEventIterator \<Rightarrow> 'a AsyncEventIterator" where
  "pushEvent event eventName s =
     (let entry = \<lparr>name = eventName, data = event\<rparr> in
      case promiseQueue s of
        p # rest \<Rightarrow>
          let s1 = s\<lparr>promiseQueue := rest\<rparr> in
          if Some eventName = errorEventName (options s) then settle p (Rejected event) s1
          else settle p
                 (Resolved (IteratorResult (Some entry)
                    (Some eventName = doneEventName (options s)))) s1
      | [] \<Rightarrow> s\<lparr>eventQueue := eventQueue s @ [entry]\<rparr>)"

definition pullEvent :: "'a AsyncEventIterator \<Rightarrow> nat \<times> 'a AsyncEventIterator" where
  "pullEvent s =
     (let (p, s0) = newPromise s in
      case eventQueue s0 of
        entry # rest \<Rightarrow>
          let s1 = s0\<lparr>eventQueue := rest\<rparr> in
          if Some (name entry) = errorEventName (options s) then
            (p, settle p (Rejected (data entry)) s1)
          else
            (p, settle p
                  (Resolved (IteratorResult (Some entry)
                     (Some (name entry) = doneEventName (options s)))) s1)
      | [] \<Rightarrow> (p, s0\<lparr>promiseQueue := promiseQueue s0 @ [p]\<rparr>))"

definition createListener ::
  "string \<Rightarrow> 'a AsyncEventIterator \<Rightarrow> listener \<times> 'a AsyncEventIterator" where
  "createListener eventName s =
     (Bridge (nextListener s) eventName, s\<lparr>nextListener := Suc (nextListener s)\<rparr>)"

text \<open>The \<^verbatim>\<open>for ... of this.eventNames\<close> loop of \<^verbatim>\<open>addEventListeners\<close>.\<close>

fun addNamedListeners ::
  "string list \<Rightarrow> 'a AsyncEventIterator \<Rightarrow> 'a AsyncEventIterator" where
  "addNamedListeners [] s = s"
| "addNamedListeners (eventName # rest) s =
     (let (l, s1) = createListener eventName s;
          s2 = addListener eventName l s1;
          s3 = s2\<lparr>listeners := AList.update eventName l (listeners s2)\<rparr>
      in addNamedListeners rest s3)"

definition addEventListeners :: "'a AsyncEventIterator \<Rightarrow> 'a AsyncEventIterator" where
  "addEventListeners s =
     (let s1 = addNamedListeners (eventNames s) s;
          s2 = (case doneEventName (options s1) of
                  Some dn \<Rightarrow>
                    if truthy (Some dn) then
                      (let (l, t) = createListener dn s1
                       in addListener dn l (t\<lparr>doneListener := Some l\<rparr>))
                    else s1
                | None \<Rightarrow> s1);
          s3 = (case errorEventName (options s2) of
                  Some en \<Rightarrow>
                    if truthy (Some en) then
                      (let (l, t) = createListener en s2
                       in addListener en l (t\<lparr>errorListener := Some l\<rparr>))
                    else s2
                | None \<Rightarrow> s2)
      in s3)"

text \<open>
  The \<^verbatim>\<open>for ... in this.listeners\<close> loop of \<^verbatim>\<open>removeEventListeners\<close>: one
  \<^verbatim>\<open>removeListener\<close> and one \<^verbatim>\<open>delete\<close> per key of the object. The keys are
  visited once each; the order of the visits does not matter for the result, since
  different keys are different event names.
\<close>

fun removeNamedListeners ::
  "(string \<times> listener) list \<Rightarrow> 'a AsyncEventIterator \<Rightarrow> 'a AsyncEventIterator" where
  "removeNamedListeners [] s = s"
| "removeNamedListeners ((eventName, l) # rest) s =
     (let s1 = removeListener eventName l s;
          s2 = s1\<lparr>listeners := AList.delete eventName (listeners s1)\<rparr>
      in removeNamedListeners rest s2)"

text \<open>
  \<^verbatim>\<open>removeListener(undefined, f)\<close> finds no array and removes nothing, which is the
  \<open>None\<close> branch below (the source asserts with \<^verbatim>\<open>!\<close> that the name is defined).
\<close>

definition removeEventListeners :: "'a AsyncEventIterator \<Rightarrow> 'a AsyncEventIterator" where
  "removeEventListeners s =
     (let s1 = removeNamedListeners (listeners s) s;
          s2 = (case doneListener s1 of
                  Some l \<Rightarrow>
                    (case doneEventName (options s1) of
                       Some dn \<Rightarrow> removeListener dn l s1
                     | None \<Rightarrow> s1)\<lparr>doneListener := None\<rparr>
                | None \<Rightarrow> s1);
          s3 = (case errorListener s2 of
                  Some l \<Rightarrow>
                    (case errorEventName (options s2) of
                       Some en \<Rightarrow> removeListener en l s2
                     | None \<Rightarrow> s2)\<lparr>errorListener := None\<rparr>
                | None \<Rightarrow> s2)
      in s3)"

definition drain :: "'a AsyncEventIterator \<Rightarrow> 'a AsyncEventIterator" where
  "drain s =
     (if listening s then
        let s1 = s\<lparr>listening := False\<rparr>;
            s2 = (if listenersAdded s1 then removeEventListeners s1 else s1);
            s3 = fold (\<lambda>p. settle p (Resolved (IteratorResult None True))) (promiseQueue s2) s2;
            s4 = s3\<lparr>promiseQueue := []\<rparr>
        in s4\<lparr>eventQueue := []\<rparr>
      else s)"

text \<open>\<^verbatim>\<open>return()\<close>, \<^verbatim>\<open>throw(error)\<close> and \<^verbatim>\<open>next()\<close>; each gives back a promise.\<close>

definition it_return :: "'a AsyncEventIterator \<Rightarrow> nat \<times> 'a AsyncEventIterator" where
  "it_return s =
     (let s1 = drain s;
          result = IteratorResult
            (Some \<lparr>name = or_else (doneEventName (options s1)) ''done'', data = None\<rparr>)
            True;
          (p, s2) = newPromise s1
      in (p, settle p (Resolved result) s2))"

definition it_throw :: "'a option \<Rightarrow> 'a AsyncEventIterator \<Rightarrow> nat \<times> 'a AsyncEventIterator" where
  "it_throw error s =
     (let s1 = drain s;
          (p, s2) = newPromise s1
      in (p, settle p (Rejected error) s2))"

definition it_next :: "'a AsyncEventIterator \<Rightarrow> nat \<times> 'a AsyncEventIterator" where
  "it_next s =
     (if \<not> listening s then it_return s
      else
        let s1 = (if \<not> listenersAdded s
                  then (addEventListeners s)\<lparr>listenersAdded := True\<rparr> else s)
        in pullEvent s1)"

text \<open>
  The constructor. \<open>opts = None\<close> is a call without the third argument, which takes the
  default value of the parameter. The emitter passed in carries the handlers of other
  parties only; the heap holds no promise of this iterator yet.
\<close>

definition defaultOptions :: AsyncEventIteratorOptions where
  "defaultOptions =
     \<lparr>doneEventName = Some ''done'', errorEventName = Some ''error'', listenNow = None\<rparr>"

definition new_AsyncEventIterator ::
  "(string \<Rightarrow> nat list) \<Rightarrow> string list \<Rightarrow> AsyncEventIteratorOptions option
     \<Rightarrow> 'a AsyncEventIterator" where
  "new_AsyncEventIterator emitter names opts =
     (let s = \<lparr>eventEmitter = (\<lambda>ch. map Foreign (emitter ch)),
               eventNames = names,
               options = (case opts of None \<Rightarrow> defaultOptions | Some given \<Rightarrow> given),
               promiseQueue = [],
               eventQueue = [],
               listening = True,
               listenersAdded = False,
               listeners = [],
               doneListener = None,
               errorListener = None,
               promises = (\<lambda>p. None),
               nextPromise = 0,
               nextListener = 0\<rparr>
      in if listenNow (options s) = Some True
         then (addEventListeners s)\<lparr>listenersAdded := True\<rparr> else s)"

section \<open>The emitter firing, and sequences of calls\<close>

text \<open>
  \<^verbatim>\<open>emitter.emit(ch, payload)\<close> calls the handlers registered for \<open>ch\<close> in
  registration order, on a copy of the array taken before the first call. (Node throws
  to the caller of \<^verbatim>\<open>emit\<close> when \<open>error\<close> is fired and no handler at all is registered for
  it; that happens outside the iterator and is not modelled.)
\<close>

definition callListener ::
  "'a option \<Rightarrow> listener \<Rightarrow> 'a AsyncEventIterator \<Rightarrow> 'a AsyncEventIterator" where
  "callListener payload l s =
     (case l of Bridge i eventName \<Rightarrow> pushEvent payload eventName s | Foreign i \<Rightarrow> s)"

definition emit :: "string \<Rightarrow> 'a option \<Rightarrow> 'a AsyncEventIterator \<Rightarrow> 'a AsyncEventIterator" where
  "emit ch payload s = fold (callListener payload) (eventEmitter s ch) s"

text \<open>
  A call on the iterator. \<open>Emit\<close> is the emitter firing; \<open>Next\<close>, \<open>Return\<close> and
  \<open>Throw\<close> are the public methods. \<open>PushEvent\<close>, \<open>PullEvent\<close> and \<open>Drain\<close> are the
  private methods called directly, which no client can do: they are here to state
  properties of the two queues for every order of pushes, pulls and drains.
\<close>

datatype 'a call =
    Emit string "'a option" | Next | Return | Throw "'a option"
  | PushEvent "'a option" string | PullEvent | Drain

fun step :: "'a call \<Rightarrow> 'a AsyncEventIterator \<Rightarrow> 'a AsyncEventIterator" where
  "step (Emit ch payload) s = emit ch payload s"
| "step Next s = snd (it_next s)"
| "step Return s = snd (it_return s)"
| "step (Throw error) s = snd (it_throw error s)"
| "step (PushEvent event eventName) s = pushEvent event eventName s"
| "step PullEvent s = snd (pullEvent s)"
| "step Drain s = drain s"

definition run :: "'a call list \<Rightarrow> 'a AsyncEventIterator \<Rightarrow> 'a AsyncEventIterator" where
  "run cs s = fold step cs s"

fun is_api :: "'a call \<Rightarrow> bool" where
  "is_api (Emit ch payload) = True"
| "is_api Next = True"
| "is_api Return = True"
| "is_api (Throw error) = True"
| "is_api (PushEvent event eventName) = False"
| "is_api PullEvent = False"
| "is_api Drain = False"

text \<open>
  What a pull that is matched with \<open>entry\<close> is settled with: the branch that
  \<^verbatim>\<open>pushEvent\<close> and \<^verbatim>\<open>pullEvent\<close> both have.
\<close>

definition delivery :: "AsyncEventIteratorOptions \<Rightarrow> 'a EventEntry \<Rightarrow> 'a settlement" where
  "delivery opts entry =
     (if Some (name entry) = errorEventName opts then Rejected (data entry)
      else Resolved (IteratorResult (Some entry) (Some (name entry) = doneEventName opts)))"

text \<open>The result \<^verbatim>\<open>{value: undefined, done: true}\<close> that \<^verbatim>\<open>drain\<close> resolves with.\<close>

definition terminal_empty :: "'a settlement" where
  "terminal_empty = Resolved (IteratorResult None True)"

text \<open>
  Two views of the state, for saying what a method leaves alone: the fields the queue
  operations work on, and the fields the listener bookkeeping works on.
\<close>

definition queue_side where
  "queue_side s =
     (eventNames s, options s, promiseQueue s, eventQueue s, listening s, listenersAdded s,
      promises s, nextPromise s)"

definition listener_side where
  "listener_side s =
     (eventEmitter s, eventNames s, options s, listeners s, doneListener s, errorListener s,
      nextListener s, listening s, listenersAdded s)"

text \<open>The handlers of the iterator among those registered for \<open>ch\<close>.\<close>

fun is_bridge :: "listener \<Rightarrow> bool" where
  "is_bridge (Bridge i n) = True"
| "is_bridge (Foreign i) = False"

definition bridge_listeners :: "'a AsyncEventIterator \<Rightarrow> string \<Rightarrow> listener list" where
  "bridge_listeners s ch = filter is_bridge (eventEmitter s ch)"

section \<open>The handlers of the iterator on the emitter\<close>

text \<open>The event name a handler of the iterator passes to \<^verbatim>\<open>pushEvent\<close>.\<close>

fun listener_name :: "listener \<Rightarrow> string" where
  "listener_name (Bridge i n) = n"
| "listener_name (Foreign i) = []"

text \<open>
  The number of handlers \<^verbatim>\<open>addEventListeners\<close> registers for \<open>ch\<close>: one for each time
  \<open>ch\<close> stands in the list of event names, one more if \<open>ch\<close> is the done event name, and
  one more if it is the error event name.
\<close>

definition handler_count :: "string list \<Rightarrow> AsyncEventIteratorOptions \<Rightarrow> string \<Rightarrow> nat" where
  "handler_count names opts ch =
     count_list names ch
     + (if doneEventName opts = Some ch \<and> ch \<noteq> [] then 1 else 0)
     + (if errorEventName opts = Some ch \<and> ch \<noteq> [] then 1 else 0)"

text \<open>
  The handles the iterator holds: the values of \<open>listeners\<close>, \<open>doneListener\<close> and
  \<open>errorListener\<close>. \<open>handles_for s ch\<close> are those it would remove from the array of \<open>ch\<close>.
\<close>

definition handles :: "'a AsyncEventIterator \<Rightarrow> listener list" where
  "handles s =
     map snd (listeners s)
     @ (case doneListener s of None \<Rightarrow> [] | Some l \<Rightarrow> [l])
     @ (case errorListener s of None \<Rightarrow> [] | Some l \<Rightarrow> [l])"

definition handles_for :: "'a AsyncEventIterator \<Rightarrow> string \<Rightarrow> listener list" where
  "handles_for s ch =
     (case map_of (listeners s) ch of None \<Rightarrow> [] | Some l \<Rightarrow> [l])
     @ (case doneListener s of
          None \<Rightarrow> [] | Some l \<Rightarrow> if doneEventName (options s) = Some ch then [l] else [])
     @ (case errorListener s of
          None \<Rightarrow> [] | Some l \<Rightarrow> if errorEventName (options s) = Some ch then [l] else [])"

text \<open>
  \<open>tidy\<close>: the handlers of the iterator on the emitter are exactly the handles it holds,
  each a different closure made earlier.
\<close>

definition tidy :: "'a AsyncEventIterator \<Rightarrow> bool" where
  "tidy s \<longleftrightarrow>
     (\<forall>ch. bridge_listeners s ch = handles_for s ch) \<and>
     distinct (map fst (listeners s)) \<and>
     distinct (handles s) \<and>
     (\<forall>l \<in> set (handles s). \<exists>i n. l = Bridge i n \<and> i < nextListener s)"

text \<open>
  \<open>wired\<close>: before \<^verbatim>\<open>addEventListeners\<close> has run the emitter holds no handler of the
  iterator; while the iterator is attached and listening, the array of every event name
  \<open>ch\<close> holds \<open>handler_count\<close> handlers of the iterator, each pushing under the name \<open>ch\<close>.
\<close>

definition wired :: "'a AsyncEventIterator \<Rightarrow> bool" where
  "wired s \<longleftrightarrow>
     (\<not> listenersAdded s \<longrightarrow> (\<forall>ch. bridge_listeners s ch = [])) \<and>
     (listenersAdded s \<and> listening s \<longrightarrow>
        (\<forall>ch. map listener_name (bridge_listeners s ch) =
           replicate (handler_count (eventNames s) (options s) ch) ch))"

text \<open>
  \<open>released\<close>: the handle set is exact, and it is empty whenever the iterator is not
  both attached and listening.
\<close>

definition released :: "'a AsyncEventIterator \<Rightarrow> bool" where
  "released s \<longleftrightarrow> tidy s \<and> (\<not> listenersAdded s \<or> \<not> listening s \<longrightarrow> handles s = [])"

section \<open>The history of a sequence of calls\<close>




text \<open>The calls that do not stop the iterator.\<close>

fun source_call :: "'a call \<Rightarrow> bool" where
  "source_call (Emit ch payload) = True"
| "source_call Next = True"
| "source_call (PushEvent event eventName) = True"
| "source_call PullEvent = True"
| "source_call c = False"

text \<open>
  \<open>settled_by_delivery\<close>: the iterator is listening and every settled promise was settled
  with an entry.
\<close>

definition settled_by_delivery :: "'a AsyncEventIterator \<Rightarrow> bool" where
  "settled_by_delivery s \<longleftrightarrow>
     listening s \<and> (\<forall>p v. promises s p = Some v \<longrightarrow> (\<exists>entry. v = delivery (options s) entry))"

section \<open>Invariants of the two queues\<close>

text \<open>
  \<open>rendezvous\<close>: the two queues are never both non-empty. \<open>waiters_pending\<close>: the
  promises in the waiter queue are different promises, handed out earlier and still
  pending. \<open>drained_quiet\<close>: once \<open>listening\<close> is off, no request waits.
\<close>

definition rendezvous :: "'a AsyncEventIterator \<Rightarrow> bool" where
  "rendezvous s \<longleftrightarrow> eventQueue s = [] \<or> promiseQueue s = []"

definition waiters_pending :: "'a AsyncEventIterator \<Rightarrow> bool" where
  "waiters_pending s \<longleftrightarrow>
     distinct (promiseQueue s) \<and>
     (\<forall>p \<in> set (promiseQueue s). promises s p = None \<and> p < nextPromise s)"

definition drained_quiet :: "'a AsyncEventIterator \<Rightarrow> bool" where
  "drained_quiet s \<longleftrightarrow> listening s \<or> promiseQueue s = []"

section \<open>What the listener bookkeeping leaves alone\<close>

lemma queue_side_update [simp]:
  "queue_side (s\<lparr>eventEmitter := e\<rparr>) = queue_side s"
  "queue_side (s\<lparr>listeners := ls\<rparr>) = queue_side s"
  "queue_side (s\<lparr>doneListener := d\<rparr>) = queue_side s"
  "queue_side (s\<lparr>errorListener := d\<rparr>) = queue_side s"
  "queue_side (s\<lparr>nextListener := k\<rparr>) = queue_side s"
  by (simp_all add: queue_side_def)

lemma queue_side_createListener [simp]: "queue_side (snd (createListener n s)) = queue_side s"
  by (simp add: createListener_def)

lemma queue_side_addListener [simp]: "queue_side (addListener n l s) = queue_side s"
  by (simp add: addListener_def)

lemma queue_side_removeListener [simp]: "queue_side (removeListener n l s) = queue_side s"
  by (simp add: removeListener_def)

lemma queue_side_addNamedListeners [simp]: "queue_side (addNamedListeners ns s) = queue_side s"
  by (induction ns s rule: addNamedListeners.induct) (simp_all add: split_beta Let_def)

lemma queue_side_addEventListeners [simp]: "queue_side (addEventListeners s) = queue_side s"
  unfolding addEventListeners_def Let_def
  by (simp add: split_beta split: option.splits)

lemma queue_side_removeNamedListeners [simp]:
  "queue_side (removeNamedListeners hs s) = queue_side s"
  by (induction hs s rule: removeNamedListeners.induct) (simp_all add: Let_def)

lemma queue_side_removeEventListeners [simp]:
  "queue_side (removeEventListeners s) = queue_side s"
  unfolding removeEventListeners_def Let_def
  by (simp split: option.splits)

lemma queue_sideD:
  assumes "queue_side t = queue_side s"
  shows "eventNames t = eventNames s" "options t = options s"
    "promiseQueue t = promiseQueue s" "eventQueue t = eventQueue s"
    "listening t = listening s" "listenersAdded t = listenersAdded s"
    "promises t = promises s" "nextPromise t = nextPromise s"
  using assms by (simp_all add: queue_side_def)

lemmas attach_frame [simp] = queue_sideD [OF queue_side_addEventListeners]
lemmas detach_frame [simp] = queue_sideD [OF queue_side_removeEventListeners]

section \<open>The queue operations, case by case\<close>

lemma settle_pending: "promises s p = None \<Longrightarrow> settle p v s = s\<lparr>promises := (promises s)(p \<mapsto> v)\<rparr>"
  by (simp add: settle_def)

lemma settle_only_promises: "settle p v s = s\<lparr>promises := promises (settle p v s)\<rparr>"
  by (simp add: settle_def)

lemma promises_settle:
  "promises (settle p v s) q = (if q = p \<and> promises s p = None then Some v else promises s q)"
  by (simp add: settle_def)

lemma pushEvent_waiter:
  "promiseQueue s = p # rest \<Longrightarrow>
   pushEvent event ch s =
     settle p (delivery (options s) \<lparr>name = ch, data = event\<rparr>) (s\<lparr>promiseQueue := rest\<rparr>)"
  by (simp add: pushEvent_def delivery_def Let_def)

lemma pushEvent_no_waiter:
  "promiseQueue s = [] \<Longrightarrow>
   pushEvent event ch s = s\<lparr>eventQueue := eventQueue s @ [\<lparr>name = ch, data = event\<rparr>]\<rparr>"
  by (simp add: pushEvent_def Let_def)

lemma pullEvent_entry:
  "eventQueue s = entry # rest \<Longrightarrow>
   pullEvent s =
     (nextPromise s,
      s\<lparr>promises := (promises s)(nextPromise s \<mapsto> delivery (options s) entry),
        nextPromise := Suc (nextPromise s), eventQueue := rest\<rparr>)"
  by (simp add: pullEvent_def newPromise_def settle_def delivery_def Let_def)

lemma pullEvent_no_entry:
  "eventQueue s = [] \<Longrightarrow>
   pullEvent s =
     (nextPromise s,
      s\<lparr>promises := (promises s)(nextPromise s := None),
        nextPromise := Suc (nextPromise s),
        promiseQueue := promiseQueue s @ [nextPromise s]\<rparr>)"
  by (simp add: pullEvent_def newPromise_def Let_def)

lemma fold_settle_only_promises:
  "fold (\<lambda>p. settle p v) ps s = s\<lparr>promises := promises (fold (\<lambda>p. settle p v) ps s)\<rparr>"
proof (induction ps arbitrary: s)
  case Nil
  show ?case by simp
next
  case (Cons p ps)
  have "fold (\<lambda>p. settle p v) (p # ps) s = fold (\<lambda>p. settle p v) ps (settle p v s)"
    by simp
  also have "\<dots> = (settle p v s)\<lparr>promises := promises (fold (\<lambda>p. settle p v) ps (settle p v s))\<rparr>"
    by (rule Cons.IH)
  also have "\<dots> = s\<lparr>promises := promises (fold (\<lambda>p. settle p v) ps (settle p v s))\<rparr>"
    by (simp add: settle_def)
  finally show ?case by simp
qed

lemma promises_fold_settle:
  "promises (fold (\<lambda>p. settle p v) ps s) q =
     (if q \<in> set ps \<and> promises s q = None then Some v else promises s q)"
  by (induction ps arbitrary: s) (auto simp: promises_settle)

lemma fold_settle_fields [simp]:
  "eventEmitter (fold (\<lambda>p. settle p v) ps s) = eventEmitter s"
  "eventNames (fold (\<lambda>p. settle p v) ps s) = eventNames s"
  "options (fold (\<lambda>p. settle p v) ps s) = options s"
  "promiseQueue (fold (\<lambda>p. settle p v) ps s) = promiseQueue s"
  "eventQueue (fold (\<lambda>p. settle p v) ps s) = eventQueue s"
  "listening (fold (\<lambda>p. settle p v) ps s) = listening s"
  "listenersAdded (fold (\<lambda>p. settle p v) ps s) = listenersAdded s"
  "listeners (fold (\<lambda>p. settle p v) ps s) = listeners s"
  "doneListener (fold (\<lambda>p. settle p v) ps s) = doneListener s"
  "errorListener (fold (\<lambda>p. settle p v) ps s) = errorListener s"
  "nextPromise (fold (\<lambda>p. settle p v) ps s) = nextPromise s"
  "nextListener (fold (\<lambda>p. settle p v) ps s) = nextListener s"
  by (subst fold_settle_only_promises, simp)+

lemma drain_not_listening: "\<not> listening s \<Longrightarrow> drain s = s"
  by (simp add: drain_def)

lemma drain_queue_side:
  "listening s \<Longrightarrow>
   queue_side (drain s) =
     (eventNames s, options s, [], [], False, listenersAdded s,
      (\<lambda>q. if q \<in> set (promiseQueue s) \<and> promises s q = None then Some terminal_empty
           else promises s q),
      nextPromise s)"
  by (auto simp: drain_def Let_def queue_side_def terminal_empty_def promises_fold_settle fun_eq_iff)

lemma drain_listener_side:
  "listener_side (drain s) =
     (if listening s \<and> listenersAdded s
      then listener_side (removeEventListeners (s\<lparr>listening := False\<rparr>))
      else listener_side (s\<lparr>listening := False\<rparr>))"
  by (auto simp: drain_def Let_def listener_side_def)

lemma drain_fields:
  "\<not> listening (drain s)"
  "promiseQueue (drain s) = (if listening s then [] else promiseQueue s)"
  "eventQueue (drain s) = (if listening s then [] else eventQueue s)"
  "promises (drain s) q =
     (if listening s \<and> q \<in> set (promiseQueue s) \<and> promises s q = None
      then Some terminal_empty else promises s q)"
  "nextPromise (drain s) = nextPromise s"
  "options (drain s) = options s"
  "eventNames (drain s) = eventNames s"
  "listenersAdded (drain s) = listenersAdded s"
  using drain_queue_side [of s] drain_not_listening [of s]
  by (cases "listening s"; simp add: queue_side_def)+

lemma it_return_eq:
  "it_return s =
     (nextPromise s,
      (drain s)\<lparr>promises := (promises (drain s))(nextPromise s \<mapsto>
          Resolved (IteratorResult
            (Some \<lparr>name = or_else (doneEventName (options s)) ''done'', data = None\<rparr>) True)),
        nextPromise := Suc (nextPromise s)\<rparr>)"
  by (simp add: it_return_def newPromise_def settle_def Let_def drain_fields)

lemma it_throw_eq:
  "it_throw error s =
     (nextPromise s,
      (drain s)\<lparr>promises := (promises (drain s))(nextPromise s \<mapsto> Rejected error),
        nextPromise := Suc (nextPromise s)\<rparr>)"
  by (simp add: it_throw_def newPromise_def settle_def Let_def drain_fields)

lemma it_next_drained: "\<not> listening s \<Longrightarrow> it_next s = it_return s"
  by (simp add: it_next_def)

lemma it_next_listening:
  "listening s \<Longrightarrow>
   it_next s =
     pullEvent (if listenersAdded s then s else (addEventListeners s)\<lparr>listenersAdded := True\<rparr>)"
  by (simp add: it_next_def)

lemma emit_preserves:
  assumes "P s" and "\<And>n t. P t \<Longrightarrow> P (pushEvent payload n t)"
  shows "P (emit ch payload s)"
proof -
  have "P (fold (callListener payload) ls t)" if "P t" for ls t
    using that
  proof (induction ls arbitrary: t)
    case Nil
    then show ?case by simp
  next
    case (Cons l ls)
    have "P (callListener payload l t)"
      using Cons.prems assms(2) by (cases l) (simp_all add: callListener_def)
    then show ?case using Cons.IH by simp
  qed
  then show ?thesis using assms(1) by (simp add: emit_def)
qed

lemma invariants_queue_side:
  assumes "queue_side t = queue_side s"
  shows "rendezvous t = rendezvous s" "waiters_pending t = waiters_pending s"
    "drained_quiet t = drained_quiet s"
  using assms by (simp_all add: queue_side_def rendezvous_def waiters_pending_def drained_quiet_def)

lemma rendezvous_attach [simp]:
  "rendezvous ((addEventListeners s)\<lparr>listenersAdded := True\<rparr>) = rendezvous s"
  by (simp add: rendezvous_def)

lemma waiters_pending_attach [simp]:
  "waiters_pending ((addEventListeners s)\<lparr>listenersAdded := True\<rparr>) = waiters_pending s"
  by (simp add: waiters_pending_def)

lemma drained_quiet_attach [simp]:
  "drained_quiet ((addEventListeners s)\<lparr>listenersAdded := True\<rparr>) = drained_quiet s"
  by (simp add: drained_quiet_def)

subsection \<open>Never both non-empty\<close>

lemma rendezvous_pushEvent: "rendezvous s \<Longrightarrow> rendezvous (pushEvent event ch s)"
  by (cases "promiseQueue s")
     (auto simp: rendezvous_def pushEvent_no_waiter pushEvent_waiter settle_def)

lemma rendezvous_pullEvent: "rendezvous s \<Longrightarrow> rendezvous (snd (pullEvent s))"
  by (cases "eventQueue s") (auto simp: rendezvous_def pullEvent_no_entry pullEvent_entry)

lemma rendezvous_drain: "rendezvous s \<Longrightarrow> rendezvous (drain s)"
  by (simp add: rendezvous_def drain_fields)

lemma rendezvous_step: "rendezvous s \<Longrightarrow> rendezvous (step c s)"
proof (cases c)
  case (Emit ch payload)
  assume "rendezvous s"
  then show ?thesis
    unfolding Emit step.simps by (rule emit_preserves) (rule rendezvous_pushEvent)
next
  case Next
  assume "rendezvous s"
  then show ?thesis
    using rendezvous_pullEvent [of "(addEventListeners s)\<lparr>listenersAdded := True\<rparr>"]
      rendezvous_pullEvent [of s]
    by (cases "listening s")
       (simp_all add: Next it_next_drained it_next_listening it_return_eq rendezvous_def drain_fields)
qed (simp_all add: it_return_eq it_throw_eq rendezvous_def drain_fields
       rendezvous_pushEvent [unfolded rendezvous_def] rendezvous_pullEvent [unfolded rendezvous_def])

lemma rendezvous_run: "rendezvous s \<Longrightarrow> rendezvous (run cs s)"
  unfolding run_def by (induction cs arbitrary: s) (simp_all add: rendezvous_step)

lemma new_fields:
  "eventNames (new_AsyncEventIterator em names opts) = names"
  "options (new_AsyncEventIterator em names opts) =
     (case opts of None \<Rightarrow> defaultOptions | Some given \<Rightarrow> given)"
  "promiseQueue (new_AsyncEventIterator em names opts) = []"
  "eventQueue (new_AsyncEventIterator em names opts) = []"
  "listening (new_AsyncEventIterator em names opts)"
  "listenersAdded (new_AsyncEventIterator em names opts) \<longleftrightarrow>
     listenNow (case opts of None \<Rightarrow> defaultOptions | Some given \<Rightarrow> given) = Some True"
  "promises (new_AsyncEventIterator em names opts) p = None"
  "nextPromise (new_AsyncEventIterator em names opts) = 0"
  by (simp_all add: new_AsyncEventIterator_def Let_def)

lemma rendezvous_new: "rendezvous (new_AsyncEventIterator em names opts)"
  by (simp add: rendezvous_def new_fields)

subsection \<open>Waiting promises are pending\<close>

lemma waiters_pending_pushEvent: "waiters_pending s \<Longrightarrow> waiters_pending (pushEvent event ch s)"
  by (cases "promiseQueue s")
     (auto simp: waiters_pending_def pushEvent_no_waiter pushEvent_waiter settle_def)

lemma waiters_pending_pullEvent: "waiters_pending s \<Longrightarrow> waiters_pending (snd (pullEvent s))"
  by (cases "eventQueue s")
     (auto simp: waiters_pending_def pullEvent_no_entry pullEvent_entry less_Suc_eq)

lemma waiters_pending_drain: "waiters_pending s \<Longrightarrow> waiters_pending (drain s)"
  by (auto simp: waiters_pending_def drain_fields)

lemma waiters_pending_return: "waiters_pending s \<Longrightarrow> waiters_pending (snd (it_return s))"
  by (auto simp: waiters_pending_def it_return_eq drain_fields)

lemma waiters_pending_throw: "waiters_pending s \<Longrightarrow> waiters_pending (snd (it_throw e s))"
  by (auto simp: waiters_pending_def it_throw_eq drain_fields)

lemma waiters_pending_next: "waiters_pending s \<Longrightarrow> waiters_pending (snd (it_next s))"
  using waiters_pending_pullEvent [of "(addEventListeners s)\<lparr>listenersAdded := True\<rparr>"]
    waiters_pending_pullEvent [of s] waiters_pending_return [of s]
  by (cases "listening s") (simp_all add: it_next_drained it_next_listening)

lemma waiters_pending_step: "waiters_pending s \<Longrightarrow> waiters_pending (step c s)"
proof (cases c)
  case (Emit ch payload)
  assume "waiters_pending s"
  then show ?thesis
    unfolding Emit step.simps by (rule emit_preserves) (rule waiters_pending_pushEvent)
qed (simp_all add: waiters_pending_pushEvent waiters_pending_pullEvent waiters_pending_drain
       waiters_pending_return waiters_pending_throw waiters_pending_next)

lemma waiters_pending_run: "waiters_pending s \<Longrightarrow> waiters_pending (run cs s)"
  unfolding run_def by (induction cs arbitrary: s) (simp_all add: waiters_pending_step)

lemma waiters_pending_new: "waiters_pending (new_AsyncEventIterator em names opts)"
  by (simp add: waiters_pending_def new_fields)

subsection \<open>No request waits on a drained iterator\<close>

lemma drained_quiet_pushEvent: "drained_quiet s \<Longrightarrow> drained_quiet (pushEvent event ch s)"
  by (cases "promiseQueue s")
     (auto simp: drained_quiet_def pushEvent_no_waiter pushEvent_waiter settle_def)

lemma drained_quiet_return: "drained_quiet s \<Longrightarrow> drained_quiet (snd (it_return s))"
  by (auto simp: drained_quiet_def it_return_eq drain_fields)

lemma drained_quiet_throw: "drained_quiet s \<Longrightarrow> drained_quiet (snd (it_throw e s))"
  by (auto simp: drained_quiet_def it_throw_eq drain_fields)

lemma listening_pullEvent: "listening (snd (pullEvent s)) = listening s"
  by (cases "eventQueue s") (simp_all add: pullEvent_no_entry pullEvent_entry)

lemma drained_quiet_next: "drained_quiet s \<Longrightarrow> drained_quiet (snd (it_next s))"
  using drained_quiet_return [of s]
  by (cases "listening s")
     (simp_all add: it_next_drained it_next_listening drained_quiet_def listening_pullEvent)

lemma drained_quiet_step: "is_api c \<Longrightarrow> drained_quiet s \<Longrightarrow> drained_quiet (step c s)"
proof (cases c)
  case (Emit ch payload)
  assume "drained_quiet s"
  then show ?thesis
    unfolding Emit step.simps by (rule emit_preserves) (rule drained_quiet_pushEvent)
qed (simp_all add: drained_quiet_return drained_quiet_throw drained_quiet_next)

lemma drained_quiet_run:
  "list_all is_api cs \<Longrightarrow> drained_quiet s \<Longrightarrow> drained_quiet (run cs s)"
  unfolding run_def by (induction cs arbitrary: s) (simp_all add: drained_quiet_step)

lemma drained_quiet_new: "drained_quiet (new_AsyncEventIterator em names opts)"
  by (simp add: drained_quiet_def new_fields)

section \<open>The rendezvous of the two queues\<close>

text \<open>
  C1. In every state reached from a new iterator by any sequence of calls (the emitter
  firing, \<open>next\<close>, \<open>return\<close>, \<open>throw\<close>, and the private \<open>pushEvent\<close>, \<open>pullEvent\<close> and
  \<open>drain\<close> called directly), the event queue and the waiter queue are not both
  non-empty. In such a state, a push that finds a waiting request takes the head of the
  waiter queue and settles it with the pushed entry, leaving the event queue empty; a
  pull that finds a buffered entry takes the head of the event queue and is settled
  with it, leaving the waiter queue empty.
\<close>

theorem queues_never_both_nonempty:
  assumes "s = run cs (new_AsyncEventIterator em names opts)"
  shows "(eventQueue s = [] \<or> promiseQueue s = []) \<and>
    (\<forall>event ch p rest. promiseQueue s = p # rest \<longrightarrow>
       promiseQueue (pushEvent event ch s) = rest \<and>
       eventQueue (pushEvent event ch s) = [] \<and>
       promises (pushEvent event ch s) p =
         Some (delivery (options s) \<lparr>name = ch, data = event\<rparr>)) \<and>
    (\<forall>entry rest. eventQueue s = entry # rest \<longrightarrow>
       eventQueue (snd (pullEvent s)) = rest \<and>
       promiseQueue (snd (pullEvent s)) = [] \<and>
       promises (snd (pullEvent s)) (fst (pullEvent s)) = Some (delivery (options s) entry) \<and>
       (listening s \<longrightarrow>
          eventQueue (snd (it_next s)) = rest \<and>
          promiseQueue (snd (it_next s)) = [] \<and>
          promises (snd (it_next s)) (fst (it_next s)) = Some (delivery (options s) entry)))"
proof -
  have r: "rendezvous s"
    unfolding assms by (rule rendezvous_run) (rule rendezvous_new)
  have w: "waiters_pending s"
    unfolding assms by (rule waiters_pending_run) (rule waiters_pending_new)
  have push: "promiseQueue (pushEvent event ch s) = rest \<and>
       eventQueue (pushEvent event ch s) = [] \<and>
       promises (pushEvent event ch s) p =
         Some (delivery (options s) \<lparr>name = ch, data = event\<rparr>)"
    if "promiseQueue s = p # rest" for event ch p rest
    using that r w by (simp add: pushEvent_waiter rendezvous_def waiters_pending_def settle_def)
  have pull: "eventQueue (snd (pullEvent t)) = rest \<and>
       promiseQueue (snd (pullEvent t)) = promiseQueue t \<and>
       promises (snd (pullEvent t)) (fst (pullEvent t)) = Some (delivery (options t) entry)"
    if "eventQueue t = entry # rest" for entry rest and t :: "'a AsyncEventIterator"
    using that by (simp add: pullEvent_entry)
  have nxt: "eventQueue (snd (it_next s)) = rest \<and>
       promiseQueue (snd (it_next s)) = promiseQueue s \<and>
       promises (snd (it_next s)) (fst (it_next s)) = Some (delivery (options s) entry)"
    if "eventQueue s = entry # rest" "listening s" for entry rest
    using that pull [of "(addEventListeners s)\<lparr>listenersAdded := True\<rparr>" entry rest]
      pull [of s entry rest]
    by (simp add: it_next_listening)
  have empty: "promiseQueue s = []" if "eventQueue s = entry # rest" for entry rest
    using that r by (simp add: rendezvous_def)
  show ?thesis
    using r push pull [of s] nxt empty unfolding rendezvous_def by (intro conjI allI impI) simp_all
qed

theorem queues_never_both_nonempty_witness:
  "promiseQueue (run [Next, Next]
       (new_AsyncEventIterator (\<lambda>ch. []) [''chunk''] None :: nat AsyncEventIterator)) = [0, 1] \<and>
   eventQueue (run [Next, Next]
       (new_AsyncEventIterator (\<lambda>ch. []) [''chunk''] None :: nat AsyncEventIterator)) = [] \<and>
   promiseQueue (pushEvent (Some 7) ''chunk'' (run [Next, Next]
       (new_AsyncEventIterator (\<lambda>ch. []) [''chunk''] None :: nat AsyncEventIterator))) = [1] \<and>
   promises (pushEvent (Some 7) ''chunk'' (run [Next, Next]
       (new_AsyncEventIterator (\<lambda>ch. []) [''chunk''] None :: nat AsyncEventIterator))) 0 =
     Some (Resolved (IteratorResult (Some \<lparr>name = ''chunk'', data = Some 7\<rparr>) False)) \<and>
   eventQueue (run [PushEvent (Some 1) ''chunk'', PushEvent (Some 2) ''chunk'']
       (new_AsyncEventIterator (\<lambda>ch. []) [''chunk''] None :: nat AsyncEventIterator)) =
     [\<lparr>name = ''chunk'', data = Some 1\<rparr>, \<lparr>name = ''chunk'', data = Some 2\<rparr>] \<and>
   eventQueue (snd (it_next (run [PushEvent (Some 1) ''chunk'', PushEvent (Some 2) ''chunk'']
       (new_AsyncEventIterator (\<lambda>ch. []) [''chunk''] None :: nat AsyncEventIterator)))) =
     [\<lparr>name = ''chunk'', data = Some 2\<rparr>] \<and>
   promiseQueue (snd (it_next (run [PushEvent (Some 1) ''chunk'', PushEvent (Some 2) ''chunk'']
       (new_AsyncEventIterator (\<lambda>ch. []) [''chunk''] None :: nat AsyncEventIterator)))) = []"
proof -
  let ?new = "new_AsyncEventIterator (\<lambda>ch. []) [''chunk''] None :: nat AsyncEventIterator"
  let ?a = "run [Next, Next] ?new"
  let ?b = "run [PushEvent (Some 1) ''chunk'', PushEvent (Some 2) ''chunk''] ?new"
  have a: "promiseQueue ?a = [0, 1]" "options ?a = defaultOptions"
    by code_simp+
  have b: "eventQueue ?b = [\<lparr>name = ''chunk'', data = Some 1\<rparr>, \<lparr>name = ''chunk'', data = Some 2\<rparr>]"
    "listening ?b"
    by code_simp+
  note A = queues_never_both_nonempty [of ?a "[Next, Next]" "\<lambda>ch. []" "[''chunk'']" None, OF refl]
  note B = queues_never_both_nonempty
    [of ?b "[PushEvent (Some 1) ''chunk'', PushEvent (Some 2) ''chunk'']" "\<lambda>ch. []"
      "[''chunk'']" None, OF refl]
  have "eventQueue ?a = []"
    using A a by simp
  moreover have "promiseQueue (pushEvent (Some 7) ''chunk'' ?a) = [1] \<and>
      promises (pushEvent (Some 7) ''chunk'' ?a) 0 =
        Some (Resolved (IteratorResult (Some \<lparr>name = ''chunk'', data = Some 7\<rparr>) False))"
    using A a by (simp add: delivery_def defaultOptions_def)
  moreover have "eventQueue (snd (it_next ?b)) = [\<lparr>name = ''chunk'', data = Some 2\<rparr>] \<and>
      promiseQueue (snd (it_next ?b)) = []"
    using B b by simp
  ultimately show ?thesis
    using a b by simp
qed

section \<open>First in, first out\<close>









section \<open>Pulls on a listening iterator\<close>

lemma run_Cons: "run (c # cs) s = run cs (step c s)"
  by (simp add: run_def)

lemma run_Nil: "run [] s = s"
  by (simp add: run_def)

lemma run_append: "run (cs @ ds) s = run ds (run cs s)"
  by (simp add: run_def)

lemma it_next_fields:
  assumes "listening s"
  shows "fst (it_next s) = nextPromise s"
    "nextPromise (snd (it_next s)) = Suc (nextPromise s)"
    "listening (snd (it_next s))"
    "options (snd (it_next s)) = options s"
    "eventNames (snd (it_next s)) = eventNames s"
    "listenersAdded (snd (it_next s))"
    "eventQueue (snd (it_next s)) = tl (eventQueue s)"
    "promiseQueue (snd (it_next s)) =
       (if eventQueue s = [] then promiseQueue s @ [nextPromise s] else promiseQueue s)"
    "promises (snd (it_next s)) q =
       (if q = nextPromise s
        then (case eventQueue s of [] \<Rightarrow> None | entry # rest \<Rightarrow> Some (delivery (options s) entry))
        else promises s q)"
  using assms
  by (cases "eventQueue s"; cases "listenersAdded s";
      simp add: it_next_listening pullEvent_entry pullEvent_no_entry)+

text \<open>
  A run of \<open>n\<close> pulls on a listening iterator: they take promises \<open>nextPromise s\<close>,
  \<open>nextPromise s + 1\<close>, ... and are settled with the buffered entries in order.
\<close>

lemma pulls_deliver:
  assumes "listening s"
  shows "listening (run (replicate n Next) s) \<and>
    options (run (replicate n Next) s) = options s \<and>
    nextPromise (run (replicate n Next) s) = nextPromise s + n \<and>
    eventQueue (run (replicate n Next) s) = drop n (eventQueue s) \<and>
    (\<forall>q < nextPromise s. promises (run (replicate n Next) s) q = promises s q) \<and>
    (\<forall>k < n. k < length (eventQueue s) \<longrightarrow>
       promises (run (replicate n Next) s) (nextPromise s + k) =
         Some (delivery (options s) (eventQueue s ! k)))"
  using assms
proof (induction n arbitrary: s)
  case 0
  then show ?case by (simp add: run_Nil)
next
  case (Suc n)
  let ?t = "snd (it_next s)"
  have t: "listening ?t" using Suc.prems by (simp add: it_next_fields)
  note IH = Suc.IH [OF t]
  note F = it_next_fields [OF Suc.prems]
  have r: "run (Next # replicate n Next) s = run (replicate n Next) ?t"
    by (simp add: run_Cons)
  have old: "promises (run (replicate n Next) ?t) q = promises ?t q" if "q \<le> nextPromise s" for q
    using IH that by (simp add: F)
  have later: "promises (run (replicate (Suc n) Next) s) (nextPromise s + k) =
      Some (delivery (options s) (eventQueue s ! k))"
    if "k < Suc n" "k < length (eventQueue s)" for k
  proof (cases k)
    case 0
    then show ?thesis
      using old [of "nextPromise s"] that(2) by (cases "eventQueue s") (simp_all add: r F)
  next
    case (Suc j)
    then have "j < n" "j < length (eventQueue ?t)"
      using that by (simp_all add: F)
    then have "promises (run (replicate n Next) ?t) (nextPromise ?t + j) =
        Some (delivery (options ?t) (eventQueue ?t ! j))"
      using IH by blast
    then show ?thesis
      using that(2) by (simp add: r F Suc nth_tl)
  qed
  have "drop n (tl (eventQueue s)) = drop (Suc n) (eventQueue s)"
    by (simp add: drop_Suc)
  moreover have "promises (run (replicate n Next) ?t) q = promises s q" if "q < nextPromise s" for q
    using old [of q] that by (simp add: F)
  ultimately show ?case
    using IH later by (simp add: r F)
qed

section \<open>Errors from the source\<close>

text \<open>
  C10. An error from the source does not drain the iterator. In any state reached from
  a new iterator whose error channel is \<open>en\<close>: a push on \<open>en\<close> that finds a waiting
  request rejects that request with the payload and changes nothing else but taking it
  off the waiter queue; a pull that finds an entry of channel \<open>en\<close> at the head of the
  event queue is rejected with its payload and changes nothing else but taking the entry
  off the event queue (and numbering the new promise). In both cases \<open>listening\<close>, the
  handler registrations and the handle set are as before, and the entries that were
  queued behind the error are delivered to the following pulls in order.
\<close>

theorem error_does_not_drain:
  assumes "s = run cs (new_AsyncEventIterator em names opts)"
    and "errorEventName (options s) = Some en"
  shows
    "(\<forall>p waiting err. promiseQueue s = p # waiting \<longrightarrow>
        pushEvent err en s =
          s\<lparr>promiseQueue := waiting, promises := (promises s)(p \<mapsto> Rejected err)\<rparr>) \<and>
     (\<forall>entry rest. eventQueue s = entry # rest \<and> name entry = en \<longrightarrow>
        pullEvent s =
          (nextPromise s,
           s\<lparr>promises := (promises s)(nextPromise s \<mapsto> Rejected (data entry)),
             nextPromise := Suc (nextPromise s), eventQueue := rest\<rparr>) \<and>
        (listening s \<and> listenersAdded s \<longrightarrow> it_next s = pullEvent s) \<and>
        (listening s \<longrightarrow>
           listening (snd (it_next s)) \<and>
           promises (snd (it_next s)) (fst (it_next s)) = Some (Rejected (data entry)) \<and>
           eventQueue (snd (it_next s)) = rest \<and>
           (\<forall>n k. k < n \<and> k < length rest \<longrightarrow>
              promises (run (replicate n Next) (snd (it_next s))) (Suc (fst (it_next s)) + k) =
                Some (delivery (options s) (rest ! k)))))"
proof -
  have w: "waiters_pending s"
    unfolding assms(1) by (rule waiters_pending_run) (rule waiters_pending_new)
  have push: "pushEvent err en s =
      s\<lparr>promiseQueue := waiting, promises := (promises s)(p \<mapsto> Rejected err)\<rparr>"
    if "promiseQueue s = p # waiting" for p waiting err
    using that w assms(2)
    by (simp add: pushEvent_waiter waiters_pending_def settle_def delivery_def)
  have pull: "pullEvent s =
      (nextPromise s,
       s\<lparr>promises := (promises s)(nextPromise s \<mapsto> Rejected (data entry)),
         nextPromise := Suc (nextPromise s), eventQueue := rest\<rparr>)"
    if "eventQueue s = entry # rest" "name entry = en" for entry rest
    using that assms(2) by (simp add: pullEvent_entry delivery_def)
  have nxt: "it_next s = pullEvent s" if "listening s" "listenersAdded s"
    using that by (simp add: it_next_listening)
  have after: "listening (snd (it_next s)) \<and>
       promises (snd (it_next s)) (fst (it_next s)) = Some (Rejected (data entry)) \<and>
       eventQueue (snd (it_next s)) = rest \<and>
       (\<forall>n k. k < n \<and> k < length rest \<longrightarrow>
          promises (run (replicate n Next) (snd (it_next s))) (Suc (fst (it_next s)) + k) =
            Some (delivery (options s) (rest ! k)))"
    if e: "eventQueue s = entry # rest" "name entry = en" and l: "listening s" for entry rest
  proof -
    note F = it_next_fields [OF l]
    have "promises (run (replicate n Next) (snd (it_next s))) (Suc (fst (it_next s)) + k) =
            Some (delivery (options s) (rest ! k))" if "k < n" "k < length rest" for n k
      using pulls_deliver [of "snd (it_next s)" n] that e by (simp add: F)
    then show ?thesis
      using e assms(2) by (simp add: F delivery_def)
  qed
  show ?thesis
    using push pull nxt after by blast
qed

theorem error_does_not_drain_witness:
  "(let s = run [Next, Next, Emit ''chunk'' (Some 10)]
       (new_AsyncEventIterator (\<lambda>ch. [7]) [''chunk''] None :: nat AsyncEventIterator)
    in promiseQueue s = [1] \<and>
       pushEvent (Some 99) ''error'' s =
         s\<lparr>promiseQueue := [], promises := (promises s)(1 \<mapsto> Rejected (Some 99))\<rparr>) \<and>
   (let s = run [Next, Emit ''chunk'' (Some 10), Emit ''error'' (Some 99), Emit ''chunk'' (Some 20)]
       (new_AsyncEventIterator (\<lambda>ch. [7]) [''chunk''] None :: nat AsyncEventIterator)
    in eventQueue s =
         [\<lparr>name = ''error'', data = Some 99\<rparr>, \<lparr>name = ''chunk'', data = Some 20\<rparr>] \<and>
       listening (snd (it_next s)) \<and>
       eventEmitter (snd (it_next s)) = eventEmitter s \<and>
       promises (snd (it_next s)) 1 = Some (Rejected (Some 99)) \<and>
       promises (run [Next] (snd (it_next s))) 2 =
         Some (Resolved (IteratorResult (Some \<lparr>name = ''chunk'', data = Some 20\<rparr>) False)))"
proof -
  let ?new = "new_AsyncEventIterator (\<lambda>ch. [7]) [''chunk''] None :: nat AsyncEventIterator"
  let ?a = "run [Next, Next, Emit ''chunk'' (Some 10)] ?new"
  let ?b = "run [Next, Emit ''chunk'' (Some 10), Emit ''error'' (Some 99), Emit ''chunk'' (Some 20)] ?new"
  have a: "promiseQueue ?a = [1]" "errorEventName (options ?a) = Some ''error''"
    by code_simp+
  have b: "eventQueue ?b =
      [\<lparr>name = ''error'', data = Some 99\<rparr>, \<lparr>name = ''chunk'', data = Some 20\<rparr>]"
    "errorEventName (options ?b) = Some ''error''" "listening ?b" "listenersAdded ?b"
    "nextPromise ?b = 1" "options ?b = defaultOptions"
    by code_simp+
  note A = error_does_not_drain [OF refl a(2)]
  note B = error_does_not_drain [OF refl b(2)]
  have "pushEvent (Some 99) ''error'' ?a =
      ?a\<lparr>promiseQueue := [], promises := (promises ?a)(1 \<mapsto> Rejected (Some 99))\<rparr>"
    using A a(1) by simp
  moreover have nb: "it_next ?b = pullEvent ?b"
    using B b by simp
  moreover have "pullEvent ?b =
          (nextPromise ?b,
           ?b\<lparr>promises := (promises ?b)(nextPromise ?b \<mapsto> Rejected (Some 99)),
             nextPromise := Suc (nextPromise ?b),
             eventQueue := [\<lparr>name = ''chunk'', data = Some 20\<rparr>]\<rparr>)"
    using B b(1) by simp
  moreover have "listening (snd (it_next ?b))"
    using B b(1,3) by simp
  moreover have later: "promises (run (replicate n Next) (snd (it_next ?b))) (Suc (fst (it_next ?b)) + k) =
      Some (delivery (options ?b) ([\<lparr>name = ''chunk'', data = Some 20\<rparr>] ! k))"
    if "k < n" "k < length [\<lparr>name = ''chunk'', data = Some (20::nat)\<rparr>]" for n k
    using B b(1,3) that by simp
  note later [of 0 "Suc 0"]
  ultimately show ?thesis
    using a(1) b by (simp add: Let_def delivery_def defaultOptions_def numeral_2_eq_2)
qed

section \<open>What the queue operations leave alone\<close>

lemma listener_side_update [simp]:
  "listener_side (s\<lparr>promiseQueue := q\<rparr>) = listener_side s"
  "listener_side (s\<lparr>eventQueue := e\<rparr>) = listener_side s"
  "listener_side (s\<lparr>promises := m\<rparr>) = listener_side s"
  "listener_side (s\<lparr>nextPromise := k\<rparr>) = listener_side s"
  by (simp_all add: listener_side_def)

lemma listener_side_settle [simp]: "listener_side (settle p v s) = listener_side s"
  by (simp add: settle_def)

lemma listener_side_pushEvent [simp]: "listener_side (pushEvent event ch s) = listener_side s"
  by (cases "promiseQueue s") (simp_all add: pushEvent_no_waiter pushEvent_waiter)

lemma listener_side_pullEvent [simp]: "listener_side (snd (pullEvent s)) = listener_side s"
  by (cases "eventQueue s") (simp_all add: pullEvent_no_entry pullEvent_entry)

lemma listener_side_emit [simp]: "listener_side (emit ch payload s) = listener_side s"
  by (rule emit_preserves [where P = "\<lambda>t. listener_side t = listener_side s"]) simp_all

lemma listener_sideD:
  assumes "listener_side t = listener_side s"
  shows "eventEmitter t = eventEmitter s" "eventNames t = eventNames s" "options t = options s"
    "listeners t = listeners s" "doneListener t = doneListener s"
    "errorListener t = errorListener s" "nextListener t = nextListener s"
    "listening t = listening s" "listenersAdded t = listenersAdded s"
    "bridge_listeners t = bridge_listeners s" "handles t = handles s"
    "handles_for t = handles_for s" "tidy t = tidy s"
  using assms
  by (simp_all add: listener_side_def bridge_listeners_def handles_def handles_for_def tidy_def
        fun_eq_iff cong: option.case_cong)

lemmas push_frame [simp] = listener_sideD [OF listener_side_pushEvent]
lemmas pull_frame [simp] = listener_sideD [OF listener_side_pullEvent]
lemmas emit_frame [simp] = listener_sideD [OF listener_side_emit]

lemma it_return_listener_side: "listener_side (snd (it_return s)) = listener_side (drain s)"
  by (simp add: it_return_eq)

lemma it_throw_listener_side: "listener_side (snd (it_throw e s)) = listener_side (drain s)"
  by (simp add: it_throw_eq)

lemma it_next_listener_side:
  "listener_side (snd (it_next s)) =
     (if \<not> listening s then listener_side s
      else if listenersAdded s then listener_side s
      else listener_side ((addEventListeners s)\<lparr>listenersAdded := True\<rparr>))"
  by (simp add: it_next_drained it_next_listening it_return_listener_side drain_not_listening)

lemma config_step [simp]:
  "eventNames (step c s) = eventNames s" "options (step c s) = options s"
proof -
  have d: "eventNames (drain s) = eventNames s \<and> options (drain s) = options s"
    by (simp add: drain_fields)
  have "eventNames (step c s) = eventNames s \<and> options (step c s) = options s"
  proof (cases c)
    case Next
    then show ?thesis
      using d it_next_fields(4,5) [of s]
      by (cases "listening s") (simp_all add: it_next_drained it_return_eq)
  qed (simp_all add: d it_return_eq it_throw_eq)
  then show "eventNames (step c s) = eventNames s" "options (step c s) = options s"
    by simp_all
qed

lemma config_run [simp]:
  "eventNames (run cs s) = eventNames s" "options (run cs s) = options s"
  unfolding run_def by (induction cs arbitrary: s) simp_all

section \<open>Attaching the handlers\<close>

lemma bridge_listeners_update [simp]:
  "bridge_listeners (s\<lparr>listeners := ls\<rparr>) = bridge_listeners s"
  "bridge_listeners (s\<lparr>doneListener := d\<rparr>) = bridge_listeners s"
  "bridge_listeners (s\<lparr>errorListener := d\<rparr>) = bridge_listeners s"
  "bridge_listeners (s\<lparr>nextListener := k\<rparr>) = bridge_listeners s"
  "bridge_listeners (s\<lparr>listenersAdded := b\<rparr>) = bridge_listeners s"
  "bridge_listeners (s\<lparr>listening := b\<rparr>) = bridge_listeners s"
  by (simp_all add: bridge_listeners_def fun_eq_iff)

lemma bridge_listeners_addListener:
  "bridge_listeners (addListener n l s) ch =
     (if ch = n \<and> is_bridge l then bridge_listeners s ch @ [l] else bridge_listeners s ch)"
  by (simp add: bridge_listeners_def addListener_def)

lemma bridge_listeners_createListener [simp]:
  "bridge_listeners (snd (createListener n s)) = bridge_listeners s"
  by (simp add: createListener_def)

lemma fst_createListener [simp]: "fst (createListener n s) = Bridge (nextListener s) n"
  by (simp add: createListener_def)

lemma names_addNamedListeners:
  "map listener_name (bridge_listeners (addNamedListeners ns s) ch) =
     map listener_name (bridge_listeners s ch) @ replicate (count_list ns ch) ch"
proof (induction ns s rule: addNamedListeners.induct)
  case (1 s)
  show ?case by simp
next
  case (2 n rest s)
  let ?l = "fst (createListener n s)"
  let ?s3 = "(addListener n ?l (snd (createListener n s)))
      \<lparr>listeners := AList.update n ?l (listeners (addListener n ?l (snd (createListener n s))))\<rparr>"
  have step: "addNamedListeners (n # rest) s = addNamedListeners rest ?s3"
    by (simp add: Let_def split_beta)
  have "map listener_name (bridge_listeners (addNamedListeners rest ?s3) ch) =
      map listener_name (bridge_listeners ?s3 ch) @ replicate (count_list rest ch) ch"
    by (rule "2.IH" [of "createListener n s" ?l "snd (createListener n s)"])
       (simp_all add: createListener_def)
  then show ?case
    unfolding step
    by (simp add: bridge_listeners_addListener replicate_app_Cons_same)
qed

lemma names_addEventListeners:
  "map listener_name (bridge_listeners (addEventListeners s) ch) =
     map listener_name (bridge_listeners s ch)
     @ replicate (handler_count (eventNames s) (options s) ch) ch"
  unfolding addEventListeners_def Let_def handler_count_def
  by (auto simp: names_addNamedListeners bridge_listeners_addListener split_beta truthy_def
        replicate_add queue_sideD [OF queue_side_addNamedListeners]
        queue_sideD [OF queue_side_addListener] queue_sideD [OF queue_side_createListener]
        queue_sideD [OF queue_side_update(3)]
      split: option.splits)

lemma wired_listener_side:
  assumes "listener_side t = listener_side s"
  shows "wired t = wired s"
  using listener_sideD [OF assms] by (simp add: wired_def)

lemma wired_frame [simp]:
  "wired (snd (pullEvent s)) = wired s" "wired (pushEvent event ch s) = wired s"
  "wired (emit ch payload s) = wired s"
  by (rule wired_listener_side, simp)+

lemma wired_attach:
  assumes "\<forall>ch. bridge_listeners s ch = []"
  shows "wired ((addEventListeners s)\<lparr>listenersAdded := True\<rparr>)"
  using assms by (simp add: wired_def names_addEventListeners)

lemma no_bridge_among_foreign: "filter is_bridge (map Foreign xs) = []"
  by (induction xs) simp_all

lemma wired_new: "wired (new_AsyncEventIterator em names opts)"
proof -
  define s0 :: "'a AsyncEventIterator" where
    "s0 = \<lparr>eventEmitter = (\<lambda>ch. map Foreign (em ch)), eventNames = names,
       options = (case opts of None \<Rightarrow> defaultOptions | Some given \<Rightarrow> given),
       promiseQueue = [], eventQueue = [], listening = True, listenersAdded = False,
       listeners = [], doneListener = None, errorListener = None, promises = (\<lambda>p. None),
       nextPromise = 0, nextListener = 0\<rparr>"
  have b: "\<forall>ch. bridge_listeners s0 ch = []"
    by (simp add: s0_def bridge_listeners_def no_bridge_among_foreign)
  have n: "new_AsyncEventIterator em names opts =
      (if listenNow (options s0) = Some True
       then (addEventListeners s0)\<lparr>listenersAdded := True\<rparr> else s0)"
    by (simp add: new_AsyncEventIterator_def s0_def)
  have "wired s0"
    using b by (simp add: wired_def) (simp add: s0_def)
  then show ?thesis
    unfolding n using wired_attach [OF b] by simp
qed

lemma wired_drain: "wired s \<Longrightarrow> wired (drain s)"
proof (cases "listenersAdded s")
  case True
  then show ?thesis by (simp add: wired_def drain_fields)
next
  case False
  then have "listener_side (drain s) = listener_side (s\<lparr>listening := False\<rparr>)"
    by (simp add: drain_listener_side)
  from listener_sideD(10) [OF this] have "bridge_listeners (drain s) = bridge_listeners s"
    by simp
  moreover assume "wired s"
  ultimately show ?thesis
    using False by (simp add: wired_def drain_fields)
qed

lemma wired_next: "wired s \<Longrightarrow> wired (snd (it_next s))"
proof (cases "listening s \<and> \<not> listenersAdded s")
  case True
  assume "wired s"
  then have "wired ((addEventListeners s)\<lparr>listenersAdded := True\<rparr>)"
    using True by (intro wired_attach) (simp add: wired_def)
  then show ?thesis
    using True by (simp add: it_next_listening)
next
  case False
  have "listener_side (snd (it_next s)) = listener_side s"
    using False by (auto simp: it_next_listener_side)
  from wired_listener_side [OF this] show "wired s \<Longrightarrow> ?thesis"
    by simp
qed

lemma wired_step: "wired s \<Longrightarrow> wired (step c s)"
proof (cases c)
  case Return
  assume "wired s"
  then show ?thesis
    using wired_listener_side [OF it_return_listener_side, of s] by (simp add: Return wired_drain)
next
  case (Throw e)
  assume "wired s"
  then show ?thesis
    using wired_listener_side [OF it_throw_listener_side, of e s] by (simp add: Throw wired_drain)
qed (simp_all add: wired_next wired_drain)

lemma wired_run: "wired s \<Longrightarrow> wired (run cs s)"
  unfolding run_def by (induction cs arbitrary: s) (simp_all add: wired_step)

lemma fold_callListener:
  assumes "\<forall>l \<in> set ls. is_bridge l \<longrightarrow> listener_name l = ch"
  shows "fold (callListener payload) ls s = (pushEvent payload ch ^^ length (filter is_bridge ls)) s"
  using assms
proof (induction ls arbitrary: s)
  case Nil
  show ?case by simp
next
  case (Cons l ls)
  show ?case
  proof (cases l)
    case (Bridge i n)
    then have "n = ch" using Cons.prems by simp
    then show ?thesis
      using Cons by (simp add: Bridge callListener_def funpow_swap1)
  next
    case (Foreign i)
    then show ?thesis
      using Cons by (simp add: callListener_def)
  qed
qed


lemma emit_no_handlers:
  assumes "bridge_listeners s ch = []"
  shows "emit ch payload s = s"
  using assms fold_callListener [of "eventEmitter s ch" ch payload s]
  by (simp add: emit_def bridge_listeners_def filter_empty_conv)

section \<open>Attaching keeps the handle set exact\<close>

lemma update_fresh_key: "k \<notin> fst ` set al \<Longrightarrow> AList.update k v al = al @ [(k, v)]"
  by (induction al) auto

lemma delete_fresh_key: "k \<notin> fst ` set al \<Longrightarrow> AList.delete k al = al"
  by (induction al) auto

lemma remove_last_filter: "filter P (remove_last x xs) = remove_last x (filter P xs)"
  by (simp add: remove_last_def rev_filter [symmetric] filter_remove1)

lemma remove_last_head: "x \<notin> set ys \<Longrightarrow> remove_last x (x # ys) = ys"
  by (simp add: remove_last_def remove1_append)

lemma remove_last_absent: "x \<notin> set ys \<Longrightarrow> remove_last x ys = ys"
  by (simp add: remove_last_def remove1_idem)

lemma bridge_listeners_removeListener:
  "bridge_listeners (removeListener n l s) ch =
     (if ch = n then remove_last l (bridge_listeners s ch) else bridge_listeners s ch)"
  by (simp add: bridge_listeners_def removeListener_def remove_last_filter)

lemma handles_for_no_table:
  "map_of (listeners s) ch = None \<Longrightarrow> doneListener s = None \<Longrightarrow> errorListener s = None \<Longrightarrow>
   handles_for s ch = []"
  by (simp add: handles_for_def)

text \<open>One round of the loop of \<^verbatim>\<open>addEventListeners\<close>, for a name not yet in the table.\<close>

lemma tidy_add_named:
  assumes "tidy s" and "n \<notin> fst ` set (listeners s)"
    and "doneListener s = None" and "errorListener s = None"
  defines "l \<equiv> Bridge (nextListener s) n"
  defines "s3 \<equiv> s\<lparr>nextListener := Suc (nextListener s),
      eventEmitter := (eventEmitter s)(n := eventEmitter s n @ [l]),
      listeners := AList.update n l (listeners s)\<rparr>"
  shows "tidy s3"
proof -
  have fresh: "l \<notin> set (handles s)"
    using assms(1) unfolding tidy_def l_def by auto
  have none: "map_of (listeners s) n = None"
    using assms(2) by (simp add: map_of_eq_None_iff)
  have b: "bridge_listeners s3 ch = (if ch = n then bridge_listeners s ch @ [l] else bridge_listeners s ch)"
    for ch
    by (simp add: s3_def bridge_listeners_def l_def)
  have h: "handles_for s3 ch = (if ch = n then [l] else handles_for s ch)" for ch
    using assms(3,4) none
    by (simp add: s3_def handles_for_def update_conv')
  have hs: "handles s3 = handles s @ [l]"
    using assms(3,4) by (simp add: s3_def handles_def update_fresh_key [OF assms(2)])
  have "bridge_listeners s n = []"
    using assms(1,3,4) none by (simp add: tidy_def handles_for_no_table)
  then have 1: "\<forall>ch. bridge_listeners s3 ch = handles_for s3 ch"
    using assms(1) by (simp add: b h tidy_def)
  have 2: "distinct (map fst (listeners s3))"
    using assms(1,2) by (simp add: s3_def tidy_def update_fresh_key [OF assms(2)])
  have 3: "distinct (handles s3)"
    using assms(1) fresh by (simp add: hs tidy_def)
  have 4: "\<forall>x \<in> set (handles s3). \<exists>i m. x = Bridge i m \<and> i < nextListener s3"
    using assms(1) unfolding hs tidy_def
    by (auto simp: s3_def l_def less_Suc_eq)
  show ?thesis
    unfolding tidy_def using 1 2 3 4 by blast
qed

lemma tidy_addNamedListeners:
  assumes "tidy s" and "distinct ns" and "set ns \<inter> fst ` set (listeners s) = {}"
    and "doneListener s = None" and "errorListener s = None"
  shows "tidy (addNamedListeners ns s) \<and> doneListener (addNamedListeners ns s) = None \<and>
    errorListener (addNamedListeners ns s) = None"
  using assms
proof (induction ns arbitrary: s)
  case Nil
  then show ?case by simp
next
  case (Cons n ns)
  let ?l = "Bridge (nextListener s) n"
  let ?s3 = "s\<lparr>nextListener := Suc (nextListener s),
      eventEmitter := (eventEmitter s)(n := eventEmitter s n @ [?l]),
      listeners := AList.update n ?l (listeners s)\<rparr>"
  have fresh: "n \<notin> fst ` set (listeners s)"
    using Cons.prems(3) by auto
  have step: "addNamedListeners (n # ns) s = addNamedListeners ns ?s3"
    by (simp add: createListener_def addListener_def)
  have "tidy ?s3"
    using Cons.prems(1) fresh Cons.prems(4,5) by (rule tidy_add_named)
  moreover have "set ns \<inter> fst ` set (listeners ?s3) = {}"
    using Cons.prems(2,3) by (auto simp: update_fresh_key [OF fresh])
  ultimately show ?case
    unfolding step using Cons.prems(2,4,5) by (intro Cons.IH) simp_all
qed

text \<open>Registering the handler of the done event, and of the error event.\<close>

lemma tidy_add_done:
  assumes "tidy s" and "doneListener s = None" and "errorListener s = None"
    and "doneEventName (options s) = Some dn"
  defines "l \<equiv> Bridge (nextListener s) dn"
  defines "t \<equiv> s\<lparr>nextListener := Suc (nextListener s), doneListener := Some l,
      eventEmitter := (eventEmitter s)(dn := eventEmitter s dn @ [l])\<rparr>"
  shows "tidy t"
proof -
  have fresh: "l \<notin> set (handles s)"
    using assms(1) unfolding tidy_def l_def by auto
  have b: "bridge_listeners t ch = (if ch = dn then bridge_listeners s ch @ [l] else bridge_listeners s ch)"
    for ch
    by (simp add: t_def bridge_listeners_def l_def)
  have h: "handles_for t ch = (if ch = dn then handles_for s ch @ [l] else handles_for s ch)" for ch
    using assms(2,3,4) by (simp add: t_def handles_for_def cong: option.case_cong)
  have hs: "handles t = handles s @ [l]"
    using assms(2,3) by (simp add: t_def handles_def)
  have 1: "\<forall>ch. bridge_listeners t ch = handles_for t ch"
    using assms(1) by (simp add: b h tidy_def)
  have 2: "distinct (map fst (listeners t))"
    using assms(1) by (simp add: t_def tidy_def)
  have 3: "distinct (handles t)"
    using assms(1) fresh by (simp add: hs tidy_def)
  have 4: "\<forall>x \<in> set (handles t). \<exists>i m. x = Bridge i m \<and> i < nextListener t"
    using assms(1) unfolding hs tidy_def
    by (auto simp: t_def l_def less_Suc_eq)
  show ?thesis
    unfolding tidy_def using 1 2 3 4 by blast
qed

lemma tidy_add_error:
  assumes "tidy s" and "errorListener s = None" and "errorEventName (options s) = Some en"
  defines "l \<equiv> Bridge (nextListener s) en"
  defines "t \<equiv> s\<lparr>nextListener := Suc (nextListener s), errorListener := Some l,
      eventEmitter := (eventEmitter s)(en := eventEmitter s en @ [l])\<rparr>"
  shows "tidy t"
proof -
  have fresh: "l \<notin> set (handles s)"
    using assms(1) unfolding tidy_def l_def by auto
  have b: "bridge_listeners t ch = (if ch = en then bridge_listeners s ch @ [l] else bridge_listeners s ch)"
    for ch
    by (simp add: t_def bridge_listeners_def l_def)
  have h: "handles_for t ch = (if ch = en then handles_for s ch @ [l] else handles_for s ch)" for ch
    using assms(2,3) by (simp add: t_def handles_for_def cong: option.case_cong)
  have hs: "handles t = handles s @ [l]"
    using assms(2) by (simp add: t_def handles_def)
  have 1: "\<forall>ch. bridge_listeners t ch = handles_for t ch"
    using assms(1) by (simp add: b h tidy_def)
  have 2: "distinct (map fst (listeners t))"
    using assms(1) by (simp add: t_def tidy_def)
  have 3: "distinct (handles t)"
    using assms(1) fresh by (simp add: hs tidy_def)
  have 4: "\<forall>x \<in> set (handles t). \<exists>i m. x = Bridge i m \<and> i < nextListener t"
    using assms(1) unfolding hs tidy_def
    by (auto simp: t_def l_def less_Suc_eq)
  show ?thesis
    unfolding tidy_def using 1 2 3 4 by blast
qed

lemma tidy_addEventListeners:
  assumes "tidy s" and "distinct (eventNames s)" and "handles s = []"
  shows "tidy (addEventListeners s)"
proof -
  from assms(3) have e: "listeners s = []" "doneListener s = None" "errorListener s = None"
    by (auto simp: handles_def split: option.splits)
  let ?s1 = "addNamedListeners (eventNames s) s"
  have s1: "tidy ?s1" "doneListener ?s1 = None" "errorListener ?s1 = None"
    using tidy_addNamedListeners [OF assms(1,2)] e by simp_all
  let ?s2 = "case doneEventName (options ?s1) of
               Some dn \<Rightarrow>
                 if truthy (Some dn) then
                   (let (l, t) = createListener dn ?s1
                    in addListener dn l (t\<lparr>doneListener := Some l\<rparr>))
                 else ?s1
             | None \<Rightarrow> ?s1"
  have s2: "tidy ?s2 \<and> errorListener ?s2 = None \<and> options ?s2 = options ?s1"
  proof (cases "doneEventName (options ?s1)")
    case None
    then show ?thesis using s1 by simp
  next
    case (Some dn)
    show ?thesis
    proof (cases "truthy (Some dn)")
      case True
      have "(let (l, t) = createListener dn ?s1 in addListener dn l (t\<lparr>doneListener := Some l\<rparr>)) =
          ?s1\<lparr>nextListener := Suc (nextListener ?s1),
            doneListener := Some (Bridge (nextListener ?s1) dn),
            eventEmitter := (eventEmitter ?s1)
              (dn := eventEmitter ?s1 dn @ [Bridge (nextListener ?s1) dn])\<rparr>"
        by (simp add: createListener_def addListener_def)
      then show ?thesis
        using tidy_add_done [OF s1(1,2,3) Some] s1 Some True by simp
    next
      case False
      then show ?thesis using s1 Some by simp
    qed
  qed
  have "tidy (case errorEventName (options ?s2) of
               Some en \<Rightarrow>
                 if truthy (Some en) then
                   (let (l, t) = createListener en ?s2
                    in addListener en l (t\<lparr>errorListener := Some l\<rparr>))
                 else ?s2
             | None \<Rightarrow> ?s2)"
  proof (cases "errorEventName (options ?s2)")
    case None
    then show ?thesis using s2 by simp
  next
    case (Some en)
    show ?thesis
    proof (cases "truthy (Some en)")
      case True
      have "(let (l, t) = createListener en ?s2 in addListener en l (t\<lparr>errorListener := Some l\<rparr>)) =
          ?s2\<lparr>nextListener := Suc (nextListener ?s2),
            errorListener := Some (Bridge (nextListener ?s2) en),
            eventEmitter := (eventEmitter ?s2)
              (en := eventEmitter ?s2 en @ [Bridge (nextListener ?s2) en])\<rparr>"
        by (simp add: createListener_def addListener_def)
      then show ?thesis
        using tidy_add_error [OF conjunct1 [OF s2] conjunct1 [OF conjunct2 [OF s2]] Some] Some True
        by simp
    next
      case False
      then show ?thesis using s2 Some by simp
    qed
  qed
  then show ?thesis
    by (simp add: addEventListeners_def Let_def)
qed

section \<open>Detaching removes every handle held\<close>

lemma handles_for_subset: "set (handles_for s ch) \<subseteq> set (handles s)"
proof -
  have "set (case map_of (listeners s) ch of None \<Rightarrow> [] | Some l \<Rightarrow> [l])
      \<subseteq> set (map snd (listeners s))"
  proof (cases "map_of (listeners s) ch")
    case None
    then show ?thesis by simp
  next
    case (Some l)
    then have "(ch, l) \<in> set (listeners s)" by (rule map_of_SomeD)
    then have "l \<in> snd ` set (listeners s)" by force
    then show ?thesis by (simp add: Some)
  qed
  moreover have "set (case doneListener s of None \<Rightarrow> []
      | Some l \<Rightarrow> if doneEventName (options s) = Some ch then [l] else [])
      \<subseteq> set (case doneListener s of None \<Rightarrow> [] | Some l \<Rightarrow> [l])"
    by (cases "doneListener s") auto
  moreover have "set (case errorListener s of None \<Rightarrow> []
      | Some l \<Rightarrow> if errorEventName (options s) = Some ch then [l] else [])
      \<subseteq> set (case errorListener s of None \<Rightarrow> [] | Some l \<Rightarrow> [l])"
    by (cases "errorListener s") auto
  ultimately show ?thesis
    unfolding handles_for_def handles_def set_append by blast
qed

text \<open>One round of the loop of \<^verbatim>\<open>removeEventListeners\<close>.\<close>

lemma tidy_remove_named:
  assumes "tidy s" and "listeners s = (n, l) # rest"
  defines "s2 \<equiv> s\<lparr>eventEmitter := (eventEmitter s)(n := remove_last l (eventEmitter s n)),
      listeners := rest\<rparr>"
  shows "tidy s2"
proof -
  have keys: "n \<notin> fst ` set rest" and dk: "distinct (map fst rest)"
    using assms(1,2) by (auto simp: tidy_def)
  then have none: "map_of rest n = None"
    by (simp add: map_of_eq_None_iff)
  have hs: "handles s = l # handles s2"
    by (simp add: s2_def handles_def assms(2))
  have fresh: "l \<notin> set (handles s2)" and dh: "distinct (handles s2)"
    using assms(1) by (simp_all add: hs tidy_def)
  note sub = handles_for_subset [of s2]
  have h: "handles_for s ch = (if ch = n then l # handles_for s2 ch else handles_for s2 ch)" for ch
    using none by (simp add: s2_def handles_for_def assms(2) cong: option.case_cong)
  have b: "bridge_listeners s2 ch =
      (if ch = n then remove_last l (bridge_listeners s ch) else bridge_listeners s ch)" for ch
    by (simp add: s2_def bridge_listeners_def remove_last_filter)
  have "l \<notin> set (handles_for s2 n)"
    using fresh sub by blast
  then have 1: "\<forall>ch. bridge_listeners s2 ch = handles_for s2 ch"
    using assms(1) by (simp add: b h tidy_def remove_last_head)
  have 4: "\<forall>x \<in> set (handles s2). \<exists>i m. x = Bridge i m \<and> i < nextListener s2"
    using assms(1) unfolding hs tidy_def by (simp add: s2_def)
  show ?thesis
    unfolding tidy_def using 1 dk dh 4 by (simp add: s2_def)
qed

lemma tidy_removeNamedListeners:
  assumes "tidy s" and "listeners s = hs"
  shows "tidy (removeNamedListeners hs s) \<and> listeners (removeNamedListeners hs s) = [] \<and>
    doneListener (removeNamedListeners hs s) = doneListener s \<and>
    errorListener (removeNamedListeners hs s) = errorListener s"
  using assms
proof (induction hs arbitrary: s)
  case Nil
  then show ?case by simp
next
  case (Cons h hs)
  obtain n l where h: "h = (n, l)" by (cases h)
  let ?s2 = "s\<lparr>eventEmitter := (eventEmitter s)(n := remove_last l (eventEmitter s n)),
      listeners := hs\<rparr>"
  have "n \<notin> fst ` set hs"
    using Cons.prems by (auto simp: tidy_def h)
  then have step: "removeNamedListeners (h # hs) s = removeNamedListeners hs ?s2"
    using Cons.prems(2) by (simp add: h removeListener_def delete_fresh_key)
  have "tidy ?s2"
    using Cons.prems by (intro tidy_remove_named) (simp_all add: h)
  from Cons.IH [OF this] show ?case
    unfolding step by simp
qed

lemma tidy_remove_done:
  assumes "tidy s" and "listeners s = []" and "doneListener s = Some l"
  defines "t \<equiv> (case doneEventName (options s) of Some dn \<Rightarrow> removeListener dn l s | None \<Rightarrow> s)
      \<lparr>doneListener := None\<rparr>"
  shows "tidy t \<and> listeners t = [] \<and> doneListener t = None \<and> errorListener t = errorListener s"
proof -
  have hs: "handles s = l # handles t"
    by (simp add: t_def handles_def assms(2,3) removeListener_def split: option.splits)
  have fresh: "l \<notin> set (handles t)" and dh: "distinct (handles t)"
    using assms(1) by (simp_all add: hs tidy_def)
  note sub = handles_for_subset [of t]
  have o: "options t = options s" "listeners t = []" "nextListener t = nextListener s"
    "doneListener t = None" "errorListener t = errorListener s"
    by (simp_all add: t_def assms(2) removeListener_def split: option.splits)
  have h: "handles_for s ch =
      (if doneEventName (options s) = Some ch then l # handles_for t ch else handles_for t ch)" for ch
    by (simp add: handles_for_def o assms(2,3) cong: option.case_cong)
  have b: "bridge_listeners t ch =
      (if doneEventName (options s) = Some ch then remove_last l (bridge_listeners s ch)
       else bridge_listeners s ch)" for ch
    by (auto simp: t_def bridge_listeners_removeListener split: option.splits)
  have "l \<notin> set (handles_for t ch)" for ch
    using fresh sub by blast
  then have 1: "\<forall>ch. bridge_listeners t ch = handles_for t ch"
    using assms(1) by (simp add: b h tidy_def remove_last_head)
  have 4: "\<forall>x \<in> set (handles t). \<exists>i m. x = Bridge i m \<and> i < nextListener t"
    using assms(1) unfolding hs tidy_def by (simp add: o)
  show ?thesis
    unfolding tidy_def using 1 dh 4 by (simp add: o)
qed

lemma tidy_remove_error:
  assumes "tidy s" and "listeners s = []" and "doneListener s = None" and "errorListener s = Some l"
  defines "t \<equiv> (case errorEventName (options s) of Some en \<Rightarrow> removeListener en l s | None \<Rightarrow> s)
      \<lparr>errorListener := None\<rparr>"
  shows "tidy t \<and> handles t = []"
proof -
  have o: "options t = options s" "listeners t = []" "nextListener t = nextListener s"
    "doneListener t = None" "errorListener t = None"
    by (simp_all add: t_def assms(2,3) removeListener_def split: option.splits)
  have ht: "handles t = []" "handles_for t ch = []" for ch
    by (simp_all add: handles_def handles_for_def o)
  have h: "handles_for s ch = (if errorEventName (options s) = Some ch then [l] else [])" for ch
    by (simp add: handles_for_def assms(2,3,4))
  have b: "bridge_listeners t ch =
      (if errorEventName (options s) = Some ch then remove_last l (bridge_listeners s ch)
       else bridge_listeners s ch)" for ch
    by (auto simp: t_def bridge_listeners_removeListener split: option.splits)
  have 1: "\<forall>ch. bridge_listeners t ch = handles_for t ch"
    using assms(1) by (simp add: b h ht tidy_def remove_last_head)
  show ?thesis
    unfolding tidy_def using 1 by (simp add: o ht)
qed

lemma tidy_removeEventListeners:
  assumes "tidy s"
  shows "tidy (removeEventListeners s) \<and> handles (removeEventListeners s) = []"
proof -
  let ?s1 = "removeNamedListeners (listeners s) s"
  note s1 = tidy_removeNamedListeners [OF assms refl]
  let ?s2 = "case doneListener ?s1 of
               Some l \<Rightarrow>
                 (case doneEventName (options ?s1) of
                    Some dn \<Rightarrow> removeListener dn l ?s1
                  | None \<Rightarrow> ?s1)\<lparr>doneListener := None\<rparr>
             | None \<Rightarrow> ?s1"
  have s2: "tidy ?s2 \<and> listeners ?s2 = [] \<and> doneListener ?s2 = None"
  proof (cases "doneListener ?s1")
    case None
    then show ?thesis using s1 by simp
  next
    case (Some l)
    from tidy_remove_done [OF conjunct1 [OF s1] conjunct1 [OF conjunct2 [OF s1]] Some]
    show ?thesis by (simp add: Some)
  qed
  let ?s3 = "case errorListener ?s2 of
               Some l \<Rightarrow>
                 (case errorEventName (options ?s2) of
                    Some en \<Rightarrow> removeListener en l ?s2
                  | None \<Rightarrow> ?s2)\<lparr>errorListener := None\<rparr>
             | None \<Rightarrow> ?s2"
  have "tidy ?s3 \<and> handles ?s3 = []"
  proof (cases "errorListener ?s2")
    case None
    then show ?thesis using s2 by (simp add: handles_def)
  next
    case (Some l)
    from tidy_remove_error [OF conjunct1 [OF s2] conjunct1 [OF conjunct2 [OF s2]]
        conjunct2 [OF conjunct2 [OF s2]] Some]
    show ?thesis by (simp add: Some)
  qed
  then show ?thesis
    by (simp add: removeEventListeners_def Let_def)
qed

lemma released_listener_side:
  assumes "listener_side t = listener_side s"
  shows "released t = released s"
  using listener_sideD [OF assms] by (simp add: released_def)

lemma released_frame [simp]:
  "released (snd (pullEvent s)) = released s" "released (pushEvent event ch s) = released s"
  "released (emit ch payload s) = released s"
  by (rule released_listener_side, simp)+

lemma tidy_flags [simp]:
  "tidy (s\<lparr>listening := b\<rparr>) = tidy s" "tidy (s\<lparr>listenersAdded := b\<rparr>) = tidy s"
  "handles (s\<lparr>listening := b\<rparr>) = handles s" "handles (s\<lparr>listenersAdded := b\<rparr>) = handles s"
  by (simp_all add: tidy_def handles_def handles_for_def cong: option.case_cong)

lemma released_empty:
  assumes "released s" and "\<not> listenersAdded s \<or> \<not> listening s"
  shows "bridge_listeners s ch = []"
proof -
  from assms have t: "tidy s" and h: "handles s = []"
    by (simp_all add: released_def)
  have "set (handles_for s ch) \<subseteq> set (handles s)"
    by (rule handles_for_subset)
  then show ?thesis
    using t h by (simp add: tidy_def)
qed

lemma released_attach:
  assumes "released s" and "\<not> listenersAdded s" and "distinct (eventNames s)"
    and "listening s"
  shows "released ((addEventListeners s)\<lparr>listenersAdded := True\<rparr>)"
proof -
  have "tidy (addEventListeners s)"
    using assms by (intro tidy_addEventListeners) (simp_all add: released_def)
  then show ?thesis
    using assms by (simp add: released_def)
qed

lemma released_drain:
  assumes "released s"
  shows "released (drain s) \<and> handles (drain s) = []"
proof (cases "listening s")
  case False
  then show ?thesis using assms by (simp add: drain_not_listening released_def)
next
  case True
  show ?thesis
  proof (cases "listenersAdded s")
    case True
    let ?t = "removeEventListeners (s\<lparr>listening := False\<rparr>)"
    have "listener_side (drain s) = listener_side ?t"
      using \<open>listening s\<close> True by (simp add: drain_listener_side)
    note D = listener_sideD [OF this]
    have "tidy ?t \<and> handles ?t = []"
      using assms by (intro tidy_removeEventListeners) (simp add: released_def)
    then show ?thesis
      by (simp add: released_def D)
  next
    case False
    have "listener_side (drain s) = listener_side (s\<lparr>listening := False\<rparr>)"
      using False by (simp add: drain_listener_side)
    note D = listener_sideD [OF this]
    show ?thesis
      using assms False by (simp add: released_def D)
  qed
qed

lemma released_step:
  assumes "released s" and "distinct (eventNames s)"
  shows "released (step c s)"
proof (cases c)
  case Next
  show ?thesis
  proof (cases "listening s \<and> \<not> listenersAdded s")
    case True
    then show ?thesis
      using released_attach [OF assms(1) _ assms(2)] by (simp add: Next it_next_listening)
  next
    case False
    have "listener_side (snd (it_next s)) = listener_side s"
      using False by (auto simp: it_next_listener_side)
    from released_listener_side [OF this] show ?thesis
      using assms(1) by (simp add: Next)
  qed
next
  case Return
  show ?thesis
    using released_listener_side [OF it_return_listener_side, of s] released_drain [OF assms(1)]
    by (simp add: Return)
next
  case (Throw e)
  show ?thesis
    using released_listener_side [OF it_throw_listener_side, of e s] released_drain [OF assms(1)]
    by (simp add: Throw)
qed (simp_all add: assms(1) released_drain)

lemma released_run: "released s \<Longrightarrow> distinct (eventNames s) \<Longrightarrow> released (run cs s)"
  unfolding run_def by (induction cs arbitrary: s) (simp_all add: released_step)

lemma released_new:
  assumes "distinct names"
  shows "released (new_AsyncEventIterator em names opts)"
proof -
  define s0 :: "'a AsyncEventIterator" where
    "s0 = \<lparr>eventEmitter = (\<lambda>ch. map Foreign (em ch)), eventNames = names,
       options = (case opts of None \<Rightarrow> defaultOptions | Some given \<Rightarrow> given),
       promiseQueue = [], eventQueue = [], listening = True, listenersAdded = False,
       listeners = [], doneListener = None, errorListener = None, promises = (\<lambda>p. None),
       nextPromise = 0, nextListener = 0\<rparr>"
  have n: "new_AsyncEventIterator em names opts =
      (if listenNow (options s0) = Some True
       then (addEventListeners s0)\<lparr>listenersAdded := True\<rparr> else s0)"
    by (simp add: new_AsyncEventIterator_def s0_def)
  have "released s0"
    by (simp add: released_def tidy_def handles_def handles_for_def bridge_listeners_def
          no_bridge_among_foreign s0_def)
  moreover have "\<not> listenersAdded s0" "distinct (eventNames s0)" "listening s0"
    using assms by (simp_all add: s0_def)
  ultimately show ?thesis
    unfolding n using released_attach [of s0] by simp
qed

lemma keys_removeNamedListeners:
  "fst ` set (listeners (removeNamedListeners hs s)) = fst ` set (listeners s) - fst ` set hs"
proof (induction hs s rule: removeNamedListeners.induct)
  case (1 s)
  show ?case by simp
next
  case (2 n l rest s)
  let ?s2 = "(removeListener n l s)\<lparr>listeners := AList.delete n (listeners (removeListener n l s))\<rparr>"
  have "fst ` set (listeners (removeNamedListeners rest ?s2)) =
      fst ` set (listeners ?s2) - fst ` set rest"
    by (rule "2.IH") simp_all
  moreover have "fst ` set (AList.delete n al) = fst ` set al - {n}" for al :: "(string \<times> listener) list"
    by (induction al) auto
  then have "fst ` set (listeners ?s2) = fst ` set (listeners s) - {n}"
    by (simp add: removeListener_def)
  ultimately show ?case
    by (auto simp: Let_def)
qed

lemma handles_removeEventListeners: "handles (removeEventListeners s) = []"
proof -
  have "listeners (removeNamedListeners (listeners s) s) = []"
    using keys_removeNamedListeners [of "listeners s" s] by simp
  then show ?thesis
    unfolding removeEventListeners_def Let_def handles_def
    by (simp add: removeListener_def split: option.splits)
qed

text \<open>The handle set is empty whenever the iterator is not both attached and listening.\<close>

definition unheld :: "'a AsyncEventIterator \<Rightarrow> bool" where
  "unheld s \<longleftrightarrow> (\<not> listenersAdded s \<or> \<not> listening s \<longrightarrow> handles s = [])"

lemma unheld_listener_side:
  assumes "listener_side t = listener_side s"
  shows "unheld t = unheld s"
  using listener_sideD [OF assms] by (simp add: unheld_def)

lemma unheld_drain: "unheld s \<Longrightarrow> handles (drain s) = []"
proof (cases "listening s \<and> listenersAdded s")
  case True
  then have "listener_side (drain s) = listener_side (removeEventListeners (s\<lparr>listening := False\<rparr>))"
    by (simp add: drain_listener_side)
  from listener_sideD(11) [OF this] show ?thesis
    by (simp add: handles_removeEventListeners)
next
  case False
  then have "listener_side (drain s) = listener_side (s\<lparr>listening := False\<rparr>)"
    by (auto simp: drain_listener_side)
  from listener_sideD(11) [OF this] show "unheld s \<Longrightarrow> ?thesis"
    using False by (auto simp: unheld_def)
qed

lemma unheld_step: "unheld s \<Longrightarrow> unheld (step c s)"
proof (cases c)
  case (Emit ch payload)
  show "unheld s \<Longrightarrow> ?thesis"
    using unheld_listener_side [OF listener_side_emit, of ch payload s] by (simp add: Emit)
next
  case Next
  have "unheld (snd (it_next s))" if "unheld s"
  proof (cases "listening s \<and> \<not> listenersAdded s")
    case True
    then have "listener_side (snd (it_next s)) = listener_side ((addEventListeners s)\<lparr>listenersAdded := True\<rparr>)"
      by (simp add: it_next_listener_side)
    from listener_sideD(8,9) [OF this] show ?thesis
      using True by (simp add: unheld_def)
  next
    case False
    then have "listener_side (snd (it_next s)) = listener_side s"
      by (auto simp: it_next_listener_side)
    from unheld_listener_side [OF this] that show ?thesis by simp
  qed
  then show "unheld s \<Longrightarrow> ?thesis" by (simp add: Next)
next
  case Return
  show "unheld s \<Longrightarrow> ?thesis"
    using listener_sideD(11) [OF it_return_listener_side, of s] unheld_drain [of s]
    by (simp add: Return unheld_def)
next
  case (Throw e)
  show "unheld s \<Longrightarrow> ?thesis"
    using listener_sideD(11) [OF it_throw_listener_side, of e s] unheld_drain [of s]
    by (simp add: Throw unheld_def)
next
  case (PushEvent event ch)
  show "unheld s \<Longrightarrow> ?thesis"
    using unheld_listener_side [OF listener_side_pushEvent, of event ch s] by (simp add: PushEvent)
next
  case PullEvent
  show "unheld s \<Longrightarrow> ?thesis"
    using unheld_listener_side [OF listener_side_pullEvent, of s] by (simp add: PullEvent)
next
  case Drain
  show "unheld s \<Longrightarrow> ?thesis"
    using unheld_drain [of s] by (simp add: Drain unheld_def)
qed

lemma unheld_run: "unheld s \<Longrightarrow> unheld (run cs s)"
  unfolding run_def by (induction cs arbitrary: s) (simp_all add: unheld_step)

lemma unheld_new: "unheld (new_AsyncEventIterator em names opts)"
  by (simp add: unheld_def new_AsyncEventIterator_def Let_def handles_def)

section \<open>States reached from a new iterator\<close>

lemma reachable:
  assumes "s = run cs (new_AsyncEventIterator em names opts)"
  shows "rendezvous s" "waiters_pending s" "wired s" "unheld s" "eventNames s = names"
    "options s = (case opts of None \<Rightarrow> defaultOptions | Some given \<Rightarrow> given)"
  unfolding assms
  by (simp_all add: rendezvous_run rendezvous_new waiters_pending_run waiters_pending_new
        wired_run wired_new unheld_run unheld_new new_fields)

lemma reachable_api:
  assumes "s = run cs (new_AsyncEventIterator em names opts)" and "list_all is_api cs"
  shows "drained_quiet s"
  unfolding assms(1) using assms(2) by (simp add: drained_quiet_run drained_quiet_new)

lemma reachable_distinct:
  assumes "s = run cs (new_AsyncEventIterator em names opts)" and "distinct names"
  shows "released s"
  unfolding assms(1) using assms(2) by (simp add: released_run released_new new_fields)

text \<open>
  With distinct event names, a drained iterator buffers nothing: no handler of it is
  left on the emitter to push an entry.
\<close>

definition drained_empty :: "'a AsyncEventIterator \<Rightarrow> bool" where
  "drained_empty s \<longleftrightarrow> listening s \<or> eventQueue s = []"

lemma drained_empty_step:
  assumes "released s" and "drained_empty s" and "is_api c"
  shows "drained_empty (step c s)"
proof (cases c)
  case (Emit ch payload)
  show ?thesis
  proof (cases "listening s")
    case True
    then show ?thesis by (simp add: Emit drained_empty_def)
  next
    case False
    then have "emit ch payload s = s"
      using assms(1) by (intro emit_no_handlers released_empty) simp_all
    then show ?thesis using assms(2) by (simp add: Emit)
  qed
next
  case Next
  show ?thesis
    using assms(2) it_next_fields(3) [of s]
    by (cases "listening s")
       (auto simp: Next drained_empty_def it_next_drained it_return_eq drain_fields)
next
  case Return
  show ?thesis
    using assms(2) by (auto simp: Return drained_empty_def it_return_eq drain_fields)
next
  case (Throw e)
  show ?thesis
    using assms(2) by (auto simp: Throw drained_empty_def it_throw_eq drain_fields)
qed (use assms(3) in simp_all)

lemma drained_empty_run:
  assumes "released s" and "distinct (eventNames s)" and "drained_empty s" and "list_all is_api cs"
  shows "drained_empty (run cs s)"
  using assms unfolding run_def
proof (induction cs arbitrary: s)
  case Nil
  then show ?case by simp
next
  case (Cons c cs)
  have "drained_empty (fold step cs (step c s))"
    using Cons.prems by (intro Cons.IH) (simp_all add: released_step drained_empty_step)
  then show ?case by simp
qed

lemma reachable_api_distinct:
  assumes "s = run cs (new_AsyncEventIterator em names opts)" and "list_all is_api cs"
    and "distinct names"
  shows "listening s \<or> eventQueue s = []"
proof -
  have "drained_empty (run cs (new_AsyncEventIterator em names opts :: 'a AsyncEventIterator))"
    using assms(2,3)
    by (intro drained_empty_run released_new) (simp_all add: new_fields drained_empty_def)
  then show ?thesis
    by (simp add: assms(1) drained_empty_def)
qed

section \<open>Stopping\<close>

text \<open>
  What \<^verbatim>\<open>return()\<close> does in a state a client can reach: it turns \<open>listening\<close> off,
  resolves every waiting request with \<^verbatim>\<open>{value: undefined, done: true}\<close> and empties the
  waiter queue, empties the event queue, clears the handle set, and resolves its own, new
  promise with a terminal result. With distinct event names no handler of the iterator
  is left on the emitter.
\<close>

lemma stop_drains:
  assumes "s = run cs (new_AsyncEventIterator em names opts)" and "list_all is_api cs"
  shows "\<not> listening (snd (it_return s))"
    and "promiseQueue (snd (it_return s)) = []"
    and "\<forall>p \<in> set (promiseQueue s). promises (snd (it_return s)) p = Some terminal_empty"
    and "listening s \<longrightarrow> eventQueue (snd (it_return s)) = []"
    and "promises (snd (it_return s)) (fst (it_return s)) =
      Some (Resolved (IteratorResult
        (Some \<lparr>name = or_else (doneEventName (options s)) ''done'', data = None\<rparr>) True))"
    and "fst (it_return s) \<notin> set (promiseQueue s)"
    and "handles (snd (it_return s)) = []"
    and "distinct names \<longrightarrow>
      eventQueue (snd (it_return s)) = [] \<and> (\<forall>ch. bridge_listeners (snd (it_return s)) ch = [])"
proof -
  note R = reachable [OF assms(1)]
  have q: "listening s \<or> promiseQueue s = []"
    using reachable_api [OF assms] by (simp add: drained_quiet_def)
  have w: "\<forall>p \<in> set (promiseQueue s). promises s p = None \<and> p < nextPromise s"
    using R(2) by (simp add: waiters_pending_def)
  show "\<not> listening (snd (it_return s))"
    by (simp add: it_return_eq drain_fields)
  show "promiseQueue (snd (it_return s)) = []"
    using q by (auto simp: it_return_eq drain_fields)
  show "\<forall>p \<in> set (promiseQueue s). promises (snd (it_return s)) p = Some terminal_empty"
    using q w by (auto simp: it_return_eq drain_fields)
  show "listening s \<longrightarrow> eventQueue (snd (it_return s)) = []"
    by (simp add: it_return_eq drain_fields)
  show "promises (snd (it_return s)) (fst (it_return s)) =
      Some (Resolved (IteratorResult
        (Some \<lparr>name = or_else (doneEventName (options s)) ''done'', data = None\<rparr>) True))"
    by (simp add: it_return_eq)
  show "fst (it_return s) \<notin> set (promiseQueue s)"
    using w by (auto simp: it_return_eq)
  have ls: "listener_side (snd (it_return s)) = listener_side (drain s)"
    by (rule it_return_listener_side)
  show "handles (snd (it_return s)) = []"
    using listener_sideD(11) [OF ls] unheld_drain [OF R(4)] by simp
  show "distinct names \<longrightarrow>
      eventQueue (snd (it_return s)) = [] \<and> (\<forall>ch. bridge_listeners (snd (it_return s)) ch = [])"
  proof
    assume d: "distinct names"
    have "released (drain s)"
      using released_drain [OF reachable_distinct [OF assms(1) d]] by simp
    then have "bridge_listeners (drain s) ch = []" for ch
      by (rule released_empty) (simp add: drain_fields)
    moreover have "eventQueue (snd (it_return s)) = []"
      using reachable_api_distinct [OF assms d] by (auto simp: it_return_eq drain_fields)
    ultimately show "eventQueue (snd (it_return s)) = [] \<and>
        (\<forall>ch. bridge_listeners (snd (it_return s)) ch = [])"
      using listener_sideD(10) [OF ls] by simp
  qed
qed

text \<open>
  C5. \<^verbatim>\<open>return()\<close> does not detach every handler when an event name is listed twice.
  \<^verbatim>\<open>addEventListeners\<close> registers a handler for each occurrence of the name but keeps
  only the last one in \<open>listeners\<close>, so \<^verbatim>\<open>removeEventListeners\<close> removes that one only.
  After \<^verbatim>\<open>new AsyncEventIterator(emitter, ['a', 'a'])\<close>, \<^verbatim>\<open>next()\<close> and \<^verbatim>\<open>return()\<close>, the
  iterator is drained and holds no handle, yet its first handler is still registered for
  \<open>a\<close>, and the emitter firing \<open>a\<close> still buffers an entry in the drained iterator. (The
  rest of the claim holds, and with distinct names every handler is removed:
  \<open>stop_drains\<close>.)
\<close>

theorem stop_leaves_handler_of_duplicate_name:
  "\<not> listening (snd (it_return (run [Next]
      (new_AsyncEventIterator (\<lambda>ch. []) [''a'', ''a''] None :: nat AsyncEventIterator)))) \<and>
   handles (snd (it_return (run [Next]
      (new_AsyncEventIterator (\<lambda>ch. []) [''a'', ''a''] None :: nat AsyncEventIterator)))) = [] \<and>
   eventEmitter (snd (it_return (run [Next]
      (new_AsyncEventIterator (\<lambda>ch. []) [''a'', ''a''] None :: nat AsyncEventIterator)))) ''a'' =
     [Bridge 0 ''a''] \<and>
   eventQueue (emit ''a'' (Some 5) (snd (it_return (run [Next]
      (new_AsyncEventIterator (\<lambda>ch. []) [''a'', ''a''] None :: nat AsyncEventIterator))))) =
     [\<lparr>name = ''a'', data = Some 5\<rparr>]"
  by code_simp

section \<open>Aborting\<close>



section \<open>Stopping twice\<close>

lemma drained_step:
  assumes "\<not> listening s"
  shows "listener_side (step c s) = listener_side s"
proof (cases c)
  case Next
  show ?thesis
    using assms by (simp add: Next it_next_listener_side)
qed (simp_all add: assms it_return_listener_side it_throw_listener_side drain_not_listening)

lemma drained_run:
  assumes "\<not> listening s"
  shows "listener_side (run cs s) = listener_side s"
  using assms unfolding run_def
proof (induction cs arbitrary: s)
  case Nil
  show ?case by simp
next
  case (Cons c cs)
  have "\<not> listening (step c s)"
    using listener_sideD(8) [OF drained_step [OF Cons.prems]] Cons.prems by simp
  from Cons.IH [OF this] show ?case
    by (simp add: drained_step [OF Cons.prems])
qed

text \<open>
  C7. \<^verbatim>\<open>return()\<close> and \<^verbatim>\<open>throw(err)\<close> can be called in any state and leave \<open>listening\<close>
  off. Once it is off, each of them changes nothing but the promise it hands out, already
  settled (terminal for \<^verbatim>\<open>return\<close>, rejected with \<open>err\<close> for \<^verbatim>\<open>throw\<close>): the queues, the
  emitter and the handle set are as before. \<^verbatim>\<open>next()\<close> is then \<^verbatim>\<open>return()\<close>. And after any
  further calls whatever the iterator is still not listening, the handler arrays of the
  emitter are as they were and no handler has been created: \<^verbatim>\<open>addEventListeners\<close> does
  not run again.
\<close>

theorem stop_and_abort_idempotent:
  "\<not> listening (snd (it_return s)) \<and> \<not> listening (snd (it_throw err s)) \<and>
   (\<not> listening s \<longrightarrow>
      it_return s =
        (nextPromise s,
         s\<lparr>promises := (promises s)(nextPromise s \<mapsto>
              Resolved (IteratorResult
                (Some \<lparr>name = or_else (doneEventName (options s)) ''done'', data = None\<rparr>) True)),
           nextPromise := Suc (nextPromise s)\<rparr>) \<and>
      it_throw err s =
        (nextPromise s,
         s\<lparr>promises := (promises s)(nextPromise s \<mapsto> Rejected err),
           nextPromise := Suc (nextPromise s)\<rparr>) \<and>
      it_next s = it_return s \<and>
      (\<forall>cs. \<not> listening (run cs s) \<and> eventEmitter (run cs s) = eventEmitter s \<and>
         nextListener (run cs s) = nextListener s \<and> handles (run cs s) = handles s))"
proof -
  have "\<not> listening (run cs s) \<and> eventEmitter (run cs s) = eventEmitter s \<and>
      nextListener (run cs s) = nextListener s \<and> handles (run cs s) = handles s"
    if "\<not> listening s" for cs
    using listener_sideD [OF drained_run [OF that, of cs]] that by simp
  then show ?thesis
    by (simp add: it_return_eq it_throw_eq it_next_drained drain_fields drain_not_listening)
qed

theorem stop_and_abort_idempotent_witness:
  "\<not> listening (run [Next, Emit ''a'' (Some 10), Emit ''a'' (Some 20), Return]
      (new_AsyncEventIterator (\<lambda>ch. []) [''a''] None :: nat AsyncEventIterator)) \<and>
   eventEmitter (run [Next, Emit ''a'' (Some 10), Emit ''a'' (Some 20), Return, Return,
                      Throw (Some 13), Next, Emit ''a'' (Some 30), Next]
      (new_AsyncEventIterator (\<lambda>ch. []) [''a''] None :: nat AsyncEventIterator)) =
   eventEmitter (run [Next, Emit ''a'' (Some 10), Emit ''a'' (Some 20), Return]
      (new_AsyncEventIterator (\<lambda>ch. []) [''a''] None :: nat AsyncEventIterator)) \<and>
   promises (snd (it_next (run [Next, Emit ''a'' (Some 10), Emit ''a'' (Some 20), Return]
      (new_AsyncEventIterator (\<lambda>ch. []) [''a''] None :: nat AsyncEventIterator)))) 2 =
     Some (Resolved (IteratorResult (Some \<lparr>name = ''done'', data = None\<rparr>) True)) \<and>
   eventQueue (snd (it_return (run [Next, Emit ''a'' (Some 10), Emit ''a'' (Some 20), Return]
      (new_AsyncEventIterator (\<lambda>ch. []) [''a''] None :: nat AsyncEventIterator)))) =
   eventQueue (run [Next, Emit ''a'' (Some 10), Emit ''a'' (Some 20), Return]
      (new_AsyncEventIterator (\<lambda>ch. []) [''a''] None :: nat AsyncEventIterator))"
proof -
  let ?new = "new_AsyncEventIterator (\<lambda>ch. []) [''a''] None :: nat AsyncEventIterator"
  let ?s = "run [Next, Emit ''a'' (Some 10), Emit ''a'' (Some 20), Return] ?new"
  let ?more = "[Return, Throw (Some 13), Next, Emit ''a'' (Some 30), Next] :: nat call list"
  have d: "\<not> listening ?s" and n: "nextPromise ?s = 2"
    and o: "doneEventName (options ?s) = Some ''done''"
    by code_simp+
  note T = stop_and_abort_idempotent [of ?s "Some 13"]
  have r: "run ([Next, Emit ''a'' (Some 10), Emit ''a'' (Some 20), Return] @ ?more) ?new = run ?more ?s"
    by (simp only: run_append)
  have "eventEmitter (run ?more ?s) = eventEmitter ?s"
    using T d by blast
  moreover have "it_next ?s = it_return ?s"
    using T d by blast
  moreover have "it_return ?s =
        (nextPromise ?s,
         ?s\<lparr>promises := (promises ?s)(nextPromise ?s \<mapsto>
              Resolved (IteratorResult
                (Some \<lparr>name = or_else (doneEventName (options ?s)) ''done'', data = None\<rparr>) True)),
           nextPromise := Suc (nextPromise ?s)\<rparr>)"
    using T d by blast
  ultimately show ?thesis
    using d n o r by (simp add: or_else_def)
qed

section \<open>An error queued behind an entry\<close>




section \<open>The done event\<close>

lemma listening_source_run:
  "listening s \<Longrightarrow> list_all source_call cs \<Longrightarrow> listening (run cs s)"
  unfolding run_def
proof (induction cs arbitrary: s)
  case Nil
  then show ?case by simp
next
  case (Cons c cs)
  have "listening (step c s)"
    using Cons.prems it_next_fields(3) [of s] by (cases c) simp_all
  then show ?case
    using Cons.prems by (simp add: Cons.IH)
qed

text \<open>
  C3, as the claim states it, fails: delivering the done entry does not drain the
  iterator. After \<^verbatim>\<open>next()\<close>, the emitter firing \<open>done\<close> resolves that pull with
  \<^verbatim>\<open>done: true\<close>, yet \<open>listening\<close> stays on, the handlers stay registered, and the following
  \<^verbatim>\<open>next()\<close> is left pending in the waiter queue instead of reporting a terminal result.
\<close>

theorem done_entry_does_not_drain:
  "promises (run [Next, Emit ''done'' None, Next]
      (new_AsyncEventIterator (\<lambda>ch. []) [''chunk''] None :: nat AsyncEventIterator)) 0 =
     Some (Resolved (IteratorResult (Some \<lparr>name = ''done'', data = None\<rparr>) True)) \<and>
   listening (run [Next, Emit ''done'' None]
      (new_AsyncEventIterator (\<lambda>ch. []) [''chunk''] None :: nat AsyncEventIterator)) \<and>
   eventEmitter (run [Next, Emit ''done'' None]
      (new_AsyncEventIterator (\<lambda>ch. []) [''chunk''] None :: nat AsyncEventIterator)) ''done'' =
     [Bridge 1 ''done''] \<and>
   promises (run [Next, Emit ''done'' None, Next]
      (new_AsyncEventIterator (\<lambda>ch. []) [''chunk''] None :: nat AsyncEventIterator)) 1 = None \<and>
   promiseQueue (run [Next, Emit ''done'' None, Next]
      (new_AsyncEventIterator (\<lambda>ch. []) [''chunk''] None :: nat AsyncEventIterator)) = [1]"
  by code_simp

text \<open>
  C3, amended. In a state reached from a new iterator, a pull matched with an entry
  whose channel is not the error channel is resolved with that entry and with
  \<^verbatim>\<open>done\<close> true exactly when the channel is the done event name, whether the entry finds
  the pull waiting or the pull finds the entry buffered. Delivering it drains nothing:
  \<open>listening\<close>, the handler arrays of the emitter and the handle set are as before, and a
  pull made next with nothing buffered waits. No sequence of notifications and pulls
  turns \<open>listening\<close> off; once it is off (after \<^verbatim>\<open>return\<close> or \<^verbatim>\<open>throw\<close>), every pull
  reports a terminal result at once, with the emitter untouched and no handler created.
\<close>

theorem done_entry_is_terminal_without_draining:
  assumes "s = run cs (new_AsyncEventIterator em names opts)"
  shows
    "(\<forall>event ch p rest. promiseQueue s = p # rest \<and> Some ch \<noteq> errorEventName (options s) \<longrightarrow>
        promises (pushEvent event ch s) p =
          Some (Resolved (IteratorResult (Some \<lparr>name = ch, data = event\<rparr>)
                  (Some ch = doneEventName (options s)))) \<and>
        listening (pushEvent event ch s) = listening s \<and>
        eventEmitter (pushEvent event ch s) = eventEmitter s \<and>
        handles (pushEvent event ch s) = handles s) \<and>
     (\<forall>entry rest. listening s \<and> eventQueue s = entry # rest \<and>
        Some (name entry) \<noteq> errorEventName (options s) \<longrightarrow>
        promises (snd (it_next s)) (fst (it_next s)) =
          Some (Resolved (IteratorResult (Some entry)
                  (Some (name entry) = doneEventName (options s)))) \<and>
        listening (snd (it_next s)) \<and>
        (listenersAdded s \<longrightarrow>
           eventEmitter (snd (it_next s)) = eventEmitter s \<and>
           handles (snd (it_next s)) = handles s) \<and>
        (rest = [] \<longrightarrow>
           promises (snd (it_next (snd (it_next s)))) (fst (it_next (snd (it_next s)))) = None \<and>
           promiseQueue (snd (it_next (snd (it_next s)))) = [fst (it_next (snd (it_next s)))])) \<and>
     (list_all source_call cs \<longrightarrow> listening s) \<and>
     (\<not> listening s \<longrightarrow>
        promises (snd (it_next s)) (fst (it_next s)) =
          Some (Resolved (IteratorResult
            (Some \<lparr>name = or_else (doneEventName (options s)) ''done'', data = None\<rparr>) True)) \<and>
        eventEmitter (snd (it_next s)) = eventEmitter s \<and>
        nextListener (snd (it_next s)) = nextListener s)"
proof -
  note R = reachable [OF assms]
  have source: "listening s" if "list_all source_call cs"
    unfolding assms using that by (intro listening_source_run) (simp_all add: new_fields)
  have w: "\<forall>p \<in> set (promiseQueue s). promises s p = None \<and> p < nextPromise s"
    using R(2) by (simp add: waiters_pending_def)
  have waiting: "promises (pushEvent event ch s) p =
          Some (Resolved (IteratorResult (Some \<lparr>name = ch, data = event\<rparr>)
                  (Some ch = doneEventName (options s)))) \<and>
        listening (pushEvent event ch s) = listening s \<and>
        eventEmitter (pushEvent event ch s) = eventEmitter s \<and>
        handles (pushEvent event ch s) = handles s"
    if "promiseQueue s = p # rest" "Some ch \<noteq> errorEventName (options s)" for event ch p rest
  proof -
    have "promises (pushEvent event ch s) p =
          Some (Resolved (IteratorResult (Some \<lparr>name = ch, data = event\<rparr>)
                  (Some ch = doneEventName (options s))))"
      using that w by (simp add: pushEvent_waiter settle_def delivery_def)
    then show ?thesis by simp
  qed
  have buffered: "promises (snd (it_next s)) (fst (it_next s)) =
          Some (Resolved (IteratorResult (Some entry)
                  (Some (name entry) = doneEventName (options s)))) \<and>
        listening (snd (it_next s)) \<and>
        (listenersAdded s \<longrightarrow>
           eventEmitter (snd (it_next s)) = eventEmitter s \<and>
           handles (snd (it_next s)) = handles s) \<and>
        (rest = [] \<longrightarrow>
           promises (snd (it_next (snd (it_next s)))) (fst (it_next (snd (it_next s)))) = None \<and>
           promiseQueue (snd (it_next (snd (it_next s)))) = [fst (it_next (snd (it_next s)))])"
    if l: "listening s" and e: "eventQueue s = entry # rest"
      and n: "Some (name entry) \<noteq> errorEventName (options s)" for entry rest
  proof -
    note F = it_next_fields [OF l]
    have l': "listening (snd (it_next s))" by (rule F)
    note G = it_next_fields [OF l']
    have pq: "promiseQueue s = []"
      using R(1) e by (simp add: rendezvous_def)
    have same: "listener_side (snd (it_next s)) = listener_side s" if "listenersAdded s"
      using that l by (simp add: it_next_listener_side)
    show ?thesis
      using e n l' pq listener_sideD(1,11) [OF same]
      by (simp add: F G delivery_def)
  qed
  have drained: "promises (snd (it_next s)) (fst (it_next s)) =
          Some (Resolved (IteratorResult
            (Some \<lparr>name = or_else (doneEventName (options s)) ''done'', data = None\<rparr>) True)) \<and>
        eventEmitter (snd (it_next s)) = eventEmitter s \<and>
        nextListener (snd (it_next s)) = nextListener s"
    if "\<not> listening s"
    using that by (simp add: it_next_drained it_return_eq drain_not_listening)
  show ?thesis
    using waiting buffered source drained by blast
qed

theorem done_entry_is_terminal_without_draining_witness:
  "promises (pushEvent None ''done'' (run [Next, Next]
      (new_AsyncEventIterator (\<lambda>ch. []) [''chunk''] None :: nat AsyncEventIterator))) 0 =
     Some (Resolved (IteratorResult (Some \<lparr>name = ''done'', data = None\<rparr>) True)) \<and>
   listening (pushEvent None ''done'' (run [Next, Next]
      (new_AsyncEventIterator (\<lambda>ch. []) [''chunk''] None :: nat AsyncEventIterator))) \<and>
   promises (snd (it_next (run [Emit ''done'' None]
      (new_AsyncEventIterator (\<lambda>ch. []) [''chunk'']
         (Some \<lparr>doneEventName = Some ''done'', errorEventName = Some ''error'',
                 listenNow = Some True\<rparr>) :: nat AsyncEventIterator)))) 0 =
     Some (Resolved (IteratorResult (Some \<lparr>name = ''done'', data = None\<rparr>) True)) \<and>
   listening (snd (it_next (run [Emit ''done'' None]
      (new_AsyncEventIterator (\<lambda>ch. []) [''chunk'']
         (Some \<lparr>doneEventName = Some ''done'', errorEventName = Some ''error'',
                 listenNow = Some True\<rparr>) :: nat AsyncEventIterator)))) \<and>
   promises (snd (it_next (run [Return]
      (new_AsyncEventIterator (\<lambda>ch. []) [''chunk''] None :: nat AsyncEventIterator)))) 1 =
     Some (Resolved (IteratorResult (Some \<lparr>name = ''done'', data = None\<rparr>) True))"
proof -
  let ?lazy = "new_AsyncEventIterator (\<lambda>ch. []) [''chunk''] None :: nat AsyncEventIterator"
  let ?eager = "new_AsyncEventIterator (\<lambda>ch. []) [''chunk'']
         (Some \<lparr>doneEventName = Some ''done'', errorEventName = Some ''error'',
                 listenNow = Some True\<rparr>) :: nat AsyncEventIterator"
  let ?a = "run [Next, Next] ?lazy"
  let ?b = "run [Emit ''done'' None] ?eager"
  let ?c = "run [Return] ?lazy"
  have o: "errorEventName (options ?lazy) = Some ''error''"
    "doneEventName (options ?lazy) = Some ''done''"
    "errorEventName (options ?eager) = Some ''error''"
    "doneEventName (options ?eager) = Some ''done''"
    by (simp_all add: new_fields defaultOptions_def)
  have a: "promiseQueue ?a = [0, 1]" "listening ?a"
    by code_simp+
  have b: "eventQueue ?b = [\<lparr>name = ''done'', data = None\<rparr>]" "listening ?b"
    "fst (it_next ?b) = 0"
    by code_simp+
  have c: "\<not> listening ?c" "fst (it_next ?c) = 1"
    by code_simp+
  note A = done_entry_is_terminal_without_draining [OF refl, of "[Next, Next]" "\<lambda>ch. []" "[''chunk'']" None]
  note B = done_entry_is_terminal_without_draining
    [OF refl, of "[Emit ''done'' None]" "\<lambda>ch. []" "[''chunk'']"
      "Some \<lparr>doneEventName = Some ''done'', errorEventName = Some ''error'', listenNow = Some True\<rparr>"]
  note C = done_entry_is_terminal_without_draining [OF refl, of "[Return]" "\<lambda>ch. []" "[''chunk'']" None]
  have "promises (pushEvent None ''done'' ?a) 0 =
      Some (Resolved (IteratorResult (Some \<lparr>name = ''done'', data = None\<rparr>) True)) \<and>
    listening (pushEvent None ''done'' ?a)"
  proof -
    have "promiseQueue ?a = 0 # [1] \<and> Some ''done'' \<noteq> errorEventName (options ?a)"
      using a o by simp
    from A [THEN conjunct1, rule_format, OF this, of None] show ?thesis
      using a o by simp
  qed
  moreover have "promises (snd (it_next ?b)) 0 =
      Some (Resolved (IteratorResult (Some \<lparr>name = ''done'', data = None\<rparr>) True)) \<and>
    listening (snd (it_next ?b))"
  proof -
    have "listening ?b \<and> eventQueue ?b = \<lparr>name = ''done'', data = None\<rparr> # [] \<and>
        Some (name \<lparr>name = ''done'', data = (None :: nat option)\<rparr>) \<noteq> errorEventName (options ?b)"
      using b o by simp
    from B [THEN conjunct2, THEN conjunct1, rule_format, OF this] show ?thesis
      using b o by simp
  qed
  moreover have "promises (snd (it_next ?c)) 1 =
      Some (Resolved (IteratorResult (Some \<lparr>name = ''done'', data = None\<rparr>) True))"
    using C [THEN conjunct2, THEN conjunct2, THEN conjunct2, rule_format, OF c(1)] c o
    by (simp add: or_else_def)
  ultimately show ?thesis by blast
qed

section \<open>The names of the done and error events\<close>

lemma settled_by_delivery_pushEvent:
  "settled_by_delivery s \<Longrightarrow> settled_by_delivery (pushEvent event ch s)"
  by (cases "promiseQueue s")
     (auto simp: settled_by_delivery_def pushEvent_no_waiter pushEvent_waiter settle_def)

lemma settled_by_delivery_pullEvent:
  "settled_by_delivery s \<Longrightarrow> settled_by_delivery (snd (pullEvent s))"
  by (cases "eventQueue s")
     (auto simp: settled_by_delivery_def pullEvent_no_entry pullEvent_entry)

lemma settled_by_delivery_step:
  assumes "settled_by_delivery s" and "source_call c"
  shows "settled_by_delivery (step c s)"
proof (cases c)
  case (Emit ch payload)
  show ?thesis
    unfolding Emit step.simps
    using assms(1) by (rule emit_preserves) (rule settled_by_delivery_pushEvent)
next
  case Next
  let ?t = "if listenersAdded s then s else (addEventListeners s)\<lparr>listenersAdded := True\<rparr>"
  have "settled_by_delivery ?t"
    using assms(1) by (simp add: settled_by_delivery_def)
  then show ?thesis
    using assms(1) settled_by_delivery_pullEvent [of ?t]
    by (simp add: Next it_next_listening settled_by_delivery_def)
qed (use assms in \<open>simp_all add: settled_by_delivery_pushEvent settled_by_delivery_pullEvent\<close>)

lemma settled_by_delivery_run:
  "settled_by_delivery s \<Longrightarrow> list_all source_call cs \<Longrightarrow> settled_by_delivery (run cs s)"
  unfolding run_def by (induction cs arbitrary: s) (simp_all add: settled_by_delivery_step)

lemma settled_by_delivery_new: "settled_by_delivery (new_AsyncEventIterator em names opts)"
  by (simp add: settled_by_delivery_def new_fields)

text \<open>
  C8, as the claim states it, fails: a name left out of an options object that is given
  is not defaulted. \<^verbatim>\<open>new AsyncEventIterator(emitter, ['chunk'], {listenNow: true})\<close> has
  neither a done nor an error event name, and registers no handler for \<open>done\<close> or
  \<open>error\<close>.
\<close>

theorem omitted_sentinel_names_are_not_defaulted:
  "options (new_AsyncEventIterator (\<lambda>ch. []) [''chunk'']
      (Some \<lparr>doneEventName = None, errorEventName = None, listenNow = Some True\<rparr>)
      :: nat AsyncEventIterator) =
     \<lparr>doneEventName = None, errorEventName = None, listenNow = Some True\<rparr> \<and>
   eventEmitter (new_AsyncEventIterator (\<lambda>ch. []) [''chunk'']
      (Some \<lparr>doneEventName = None, errorEventName = None, listenNow = Some True\<rparr>)
      :: nat AsyncEventIterator) ''chunk'' = [Bridge 0 ''chunk''] \<and>
   eventEmitter (new_AsyncEventIterator (\<lambda>ch. []) [''chunk'']
      (Some \<lparr>doneEventName = None, errorEventName = None, listenNow = Some True\<rparr>)
      :: nat AsyncEventIterator) ''done'' = [] \<and>
   eventEmitter (new_AsyncEventIterator (\<lambda>ch. []) [''chunk'']
      (Some \<lparr>doneEventName = None, errorEventName = None, listenNow = Some True\<rparr>)
      :: nat AsyncEventIterator) ''error'' = []"
  by code_simp

text \<open>
  C8, amended. The names default to \<open>done\<close> and \<open>error\<close> when the options argument is left
  out altogether; an options object that is given is taken as it is, so a name it leaves
  out is disabled. With the done name disabled, no sequence of notifications and pulls
  resolves a pull with \<^verbatim>\<open>done: true\<close>; with the error name disabled, none rejects a pull.
  And while the iterator is attached and listening, a disabled name has no handler: the
  handlers of the iterator for a channel are those of its occurrences among the event
  names, and the one of the other sentinel if that is enabled and named so.
\<close>

theorem sentinel_names_default_only_without_options:
  fixes cs :: "'a call list"
  assumes "s = run cs (new_AsyncEventIterator em names opts)"
  shows
    "options (new_AsyncEventIterator em names None :: 'a AsyncEventIterator) =
       \<lparr>doneEventName = Some ''done'', errorEventName = Some ''error'', listenNow = None\<rparr> \<and>
     options (new_AsyncEventIterator em names (Some given) :: 'a AsyncEventIterator) = given \<and>
     (list_all source_call cs \<and> doneEventName (options s) = None \<longrightarrow>
        (\<forall>p r. promises s p = Some (Resolved r) \<longrightarrow> \<not> result_done r)) \<and>
     (list_all source_call cs \<and> errorEventName (options s) = None \<longrightarrow>
        (\<forall>p e. promises s p \<noteq> Some (Rejected e))) \<and>
     (listening s \<and> listenersAdded s \<and> doneEventName (options s) = None \<longrightarrow>
        length (bridge_listeners s ch) =
          count_list names ch + (if errorEventName (options s) = Some ch \<and> ch \<noteq> [] then 1 else 0)) \<and>
     (listening s \<and> listenersAdded s \<and> errorEventName (options s) = None \<longrightarrow>
        length (bridge_listeners s ch) =
          count_list names ch + (if doneEventName (options s) = Some ch \<and> ch \<noteq> [] then 1 else 0))"
proof -
  note R = reachable [OF assms]
  have d: "\<exists>entry. v = delivery (options s) entry"
    if "list_all source_call cs" "promises s p = Some v" for p v
    using settled_by_delivery_run [OF settled_by_delivery_new that(1), of em names opts] that(2)
    unfolding assms settled_by_delivery_def by blast
  have 3: "\<not> result_done r"
    if "list_all source_call cs" "doneEventName (options s) = None" "promises s p = Some (Resolved r)"
    for p r
    using d [OF that(1,3)] that(2) by (auto simp: delivery_def split: if_splits)
  have 4: "promises s p \<noteq> Some (Rejected e)"
    if "list_all source_call cs" "errorEventName (options s) = None" for p e
    using d [OF that(1), of p "Rejected e"] that(2) by (auto simp: delivery_def split: if_splits)
  have n: "length (bridge_listeners s ch) = handler_count names (options s) ch"
    if "listening s" "listenersAdded s"
  proof -
    have "map listener_name (bridge_listeners s ch) =
        replicate (handler_count (eventNames s) (options s) ch) ch"
      using R(3) that by (simp add: wired_def)
    from arg_cong [OF this, of length] show ?thesis
      by (simp add: R(5))
  qed
  show ?thesis
    using 3 4 n by (auto simp: new_fields defaultOptions_def handler_count_def)
qed

theorem sentinel_names_default_only_without_options_witness:
  "options (new_AsyncEventIterator (\<lambda>ch. []) [''chunk''] None :: nat AsyncEventIterator) =
     \<lparr>doneEventName = Some ''done'', errorEventName = Some ''error'', listenNow = None\<rparr> \<and>
   promises (run [Next, Emit ''done'' None, Emit ''error'' (Some 99), Next]
      (new_AsyncEventIterator (\<lambda>ch. []) [''chunk'']
         (Some \<lparr>doneEventName = None, errorEventName = None, listenNow = Some True\<rparr>)
         :: nat AsyncEventIterator)) 0 \<noteq> Some (Rejected (Some 99)) \<and>
   promises (run [Next, Emit ''done'' None, Emit ''error'' (Some 99), Next]
      (new_AsyncEventIterator (\<lambda>ch. []) [''chunk'']
         (Some \<lparr>doneEventName = None, errorEventName = None, listenNow = Some True\<rparr>)
         :: nat AsyncEventIterator)) 0 \<noteq>
     Some (Resolved (IteratorResult (Some \<lparr>name = ''done'', data = None\<rparr>) True)) \<and>
   length (bridge_listeners (run [Next, Emit ''done'' None, Emit ''error'' (Some 99), Next]
      (new_AsyncEventIterator (\<lambda>ch. []) [''chunk'']
         (Some \<lparr>doneEventName = None, errorEventName = None, listenNow = Some True\<rparr>)
         :: nat AsyncEventIterator)) ''done'') = 0"
proof -
  let ?given = "\<lparr>doneEventName = None, errorEventName = None, listenNow = Some True\<rparr>"
  let ?cs = "[Next, Emit ''done'' None, Emit ''error'' (Some 99), Next] :: nat call list"
  let ?s = "run ?cs (new_AsyncEventIterator (\<lambda>ch. []) [''chunk''] (Some ?given)
      :: nat AsyncEventIterator)"
  have c: "list_all source_call ?cs"
    by simp
  have o: "doneEventName (options ?s) = None" "errorEventName (options ?s) = None"
    by (simp_all add: new_fields)
  have l: "listening ?s" "listenersAdded ?s"
    by code_simp+
  note T = sentinel_names_default_only_without_options
    [where cs = ?cs and em = "\<lambda>ch. []" and names = "[''chunk'']" and opts = "Some ?given"
       and given = ?given and ch = "''done''", OF refl]
  have 1: "options (new_AsyncEventIterator (\<lambda>ch. []) [''chunk''] None :: nat AsyncEventIterator) =
     \<lparr>doneEventName = Some ''done'', errorEventName = Some ''error'', listenNow = None\<rparr>"
    using T by blast
  have "list_all source_call ?cs \<and> errorEventName (options ?s) = None"
    using c o by blast
  from T [THEN conjunct2, THEN conjunct2, THEN conjunct2, THEN conjunct1, rule_format, OF this]
  have 2: "promises ?s 0 \<noteq> Some (Rejected (Some 99))" .
  have "list_all source_call ?cs \<and> doneEventName (options ?s) = None"
    using c o by blast
  from T [THEN conjunct2, THEN conjunct2, THEN conjunct1, rule_format, OF this]
  have "promises ?s 0 = Some (Resolved r) \<Longrightarrow> \<not> result_done r" for r .
  from this [of "IteratorResult (Some \<lparr>name = ''done'', data = None\<rparr>) True"]
  have 3: "promises ?s 0 \<noteq>
     Some (Resolved (IteratorResult (Some \<lparr>name = ''done'', data = None\<rparr>) True))"
    by auto
  have "listening ?s \<and> listenersAdded ?s \<and> doneEventName (options ?s) = None"
    using l o by blast
  from T [THEN conjunct2, THEN conjunct2, THEN conjunct2, THEN conjunct2, THEN conjunct1,
      rule_format, OF this]
  have 4: "length (bridge_listeners ?s ''done'') = 0"
    using o by simp
  from 1 2 3 4 show ?thesis by blast
qed

section \<open>Event names listed more than once\<close>





section \<open>Order of delivery\<close>




end
